theory Spec2Isabelle
  imports Main
begin

section \<open>Entries, emitted values and the log store\<close>

text \<open>
  The channel of \<^verbatim>\<open>lib/channel.js\<close> is an event-driven object: every source
  function and every callback it installs runs to completion as one atomic turn, and the
  environment (the MongoDB driver, the connection, other processes) decides in which order
  the pending callbacks fire.  Each turn is a function on the channel object and the
  environment; the environment's choices are the constructors of \<open>event\<close>.

  A document of the capped collection.  \<open>doc_id\<close> is the store-assigned \<^verbatim>\<open>_id\<close>;
  an absent field is \<open>None\<close>.
\<close>

type_synonym payload = string

record doc =
  doc_id :: nat
  doc_event :: "string option"
  doc_message :: "payload option"
  doc_dummy :: bool

datatype error =
    BrokenCursor   \<comment> \<open>\<^verbatim>\<open>new Error('Mubsub: broken cursor.')\<close>\<close>
  | DummyFailed    \<comment> \<open>\<^verbatim>\<open>new Error('failed to insert dummy')\<close>\<close>
  | CreateFailed   \<comment> \<open>an \<^verbatim>\<open>err\<close> of createCollection other than 'collection already exists'\<close>
  | WriteFailed    \<comment> \<open>a rejected \<^verbatim>\<open>insertOne\<close>\<close>
  | TypeError      \<comment> \<open>a property read on \<^verbatim>\<open>null\<close> or \<^verbatim>\<open>undefined\<close>\<close>
  | CallbackError nat   \<comment> \<open>what the user callback of this identity throws\<close>

text \<open>The values the channel passes to \<^verbatim>\<open>emit\<close>.\<close>

datatype arg =
    Msg "payload option"   \<comment> \<open>\<^verbatim>\<open>doc.message\<close>\<close>
  | Document doc           \<comment> \<open>the raw document\<close>
  | Coll string            \<comment> \<open>a collection handle\<close>
  | Err error

text \<open>
  A listener of the channel's EventEmitter: a callback registered by the user, known by
  its identity, which either returns (\<open>User\<close>) or throws (\<open>Thrower\<close>) when it is
  called; or one of the two internal \<^verbatim>\<open>once\<close> listeners: the \<^verbatim>\<open>resolve\<close> of
  \<^verbatim>\<open>latest\<close> waiting for 'collection', and the \<^verbatim>\<open>resolve\<close> of \<^verbatim>\<open>ready\<close> waiting
  for 'ready'.  The number names the waiting promise chain.
\<close>

datatype listener = User nat | Thrower nat | ResolveLatest nat | ResolveReady nat

text \<open>
  The promise chain started by one call of \<^verbatim>\<open>listen\<close>: the stage of its
  \<^verbatim>\<open>latest\<close> chain, whether the promise of its \<^verbatim>\<open>close()\<close> is fulfilled, and
  whether the \<^verbatim>\<open>then\<close> callback of \<^verbatim>\<open>Promise.all\<close> has run.
\<close>

datatype lstage =
    AwaitCollection        \<comment> \<open>waiting for the 'collection' event\<close>
  | Queued                 \<comment> \<open>resolved; the callback holding \<^verbatim>\<open>find\<close> is queued\<close>
  | Found "doc option"     \<comment> \<open>the callback taking \<^verbatim>\<open>doc\<close> is queued with this value\<close>
  | Inserting string       \<comment> \<open>\<^verbatim>\<open>insertOne({dummy: true})\<close> is pending on this collection\<close>
  | Anchored doc           \<comment> \<open>fulfilled with the latest document\<close>
  | Failed error           \<comment> \<open>rejected\<close>

record listen_chain =
  l_arg :: "doc option"
  l_stage :: lstage
  l_closed :: bool
  l_fired :: bool

text \<open>The promise chain started by one call of \<^verbatim>\<open>publish\<close>.\<close>

datatype pstage =
    AwaitReady             \<comment> \<open>waiting for the 'ready' event\<close>
  | PQueued                \<comment> \<open>\<^verbatim>\<open>ready()\<close> fulfilled; the callback holding \<^verbatim>\<open>insertOne\<close> is queued\<close>
  | PInserting string      \<comment> \<open>\<^verbatim>\<open>insertOne\<close> is pending on this collection\<close>
  | PResolved doc          \<comment> \<open>fulfilled with \<^verbatim>\<open>res.ops[0]\<close>\<close>
  | PRejected error

record publish_chain =
  p_event :: string
  p_message :: "payload option"
  p_stage :: pstage

text \<open>
  The channel object.  The first seven fields are the fields the constructor sets
  (\<^verbatim>\<open>listening\<close> is set to \<^verbatim>\<open>null\<close> there and never read or written again, so it
  is left out).  \<open>collection\<close> and \<open>cursor\<close> are \<open>None\<close> when the property is
  \<^verbatim>\<open>undefined\<close> or \<^verbatim>\<open>null\<close>; a collection handle is the collection's name and a
  cursor is its number in the environment.  The next fields hold the callbacks in flight,
  and the last two what an observer sees: the user callbacks invoked, in order, and the
  values thrown out of a turn or left in a rejected promise nobody handles.
\<close>

record channel =
  size :: nat
  recreate :: bool
  closed :: bool
  name :: string
  retryInterval :: nat
  collection :: "string option"
  cursor :: "nat option"
  listeners :: "(string \<times> listener) list"
  creating :: nat
  await_connect :: nat
  listens :: "listen_chain list"
  user_closes :: nat
  publishes :: "publish_chain list"
  calls :: "(nat \<times> arg) list"
  uncaught :: "arg list"

record options =
  opt_size :: "nat option"
  opt_retryInterval :: "nat option"
  opt_recreate :: "bool option"

text \<open>
  The environment: the connection (\<^verbatim>\<open>connection.db\<close> present or not,
  \<^verbatim>\<open>connection.destroyed\<close>), the collections of the database by name, and the tailable
  cursors the driver has opened.  A cursor remembers the document its handlers closed over
  (\<^verbatim>\<open>_latest\<close>, whose \<^verbatim>\<open>_id\<close> its query starts after), how many matching documents it
  has emitted as 'data', and whether it is still open.  Collections are modelled without
  the capped collection's eviction of old documents.
\<close>

record tail_cursor =
  c_coll :: string
  c_latest :: doc
  c_sent :: nat
  c_open :: bool

record env =
  db :: bool
  destroyed :: bool
  logs :: "string \<Rightarrow> doc list option"
  cursors :: "tail_cursor list"

definition the_log :: "string \<Rightarrow> env \<Rightarrow> doc list" where
  "the_log c e = (case logs e c of None \<Rightarrow> [] | Some ds \<Rightarrow> ds)"

text \<open>
  \<^verbatim>\<open>collection.insertOne\<close>: the store appends the document and assigns its position.
  The driver's answer is one of three: written, an answer whose \<^verbatim>\<open>result.ok\<close> is
  falsy, or a rejection.
\<close>

datatype write_outcome = Written | NotOk | Rejected

definition new_doc :: "string option \<Rightarrow> payload option \<Rightarrow> bool \<Rightarrow> doc list \<Rightarrow> doc" where
  "new_doc ev m dm ds = \<lparr>doc_id = length ds, doc_event = ev, doc_message = m, doc_dummy = dm\<rparr>"

definition insertOne :: "string \<Rightarrow> string option \<Rightarrow> payload option \<Rightarrow> bool \<Rightarrow> env \<Rightarrow> env" where
  "insertOne c ev m dm e =
     e\<lparr>logs := (logs e)(c \<mapsto> the_log c e @ [new_doc ev m dm (the_log c e)])\<rparr>"

text \<open>
  The query of \<^verbatim>\<open>latest\<close>: \<^verbatim>\<open>find(q).sort({$natural: -1}).limit(1).toArray()[0]\<close>.
  \<^verbatim>\<open>toArray()\<close> is called without a callback, so the driver returns a Promise of the
  array (the same promise interface the source relies on in
  \<^verbatim>\<open>insertOne(...).then\<close> and \<^verbatim>\<open>cursor.close().then\<close>), and the source reads
  property \<^verbatim>\<open>0\<close> of that Promise object.
\<close>

datatype jsval = JArray "doc list" | JPromise "doc list"

definition find_id :: "nat option \<Rightarrow> doc list \<Rightarrow> doc list" where
  "find_id q ds = (case q of None \<Rightarrow> ds | Some i \<Rightarrow> filter (\<lambda>d. doc_id d = i) ds)"

definition sort_natural_desc :: "doc list \<Rightarrow> doc list" where
  "sort_natural_desc ds = rev ds"

definition limit1 :: "doc list \<Rightarrow> doc list" where
  "limit1 ds = take 1 ds"

definition toArray :: "doc list \<Rightarrow> jsval" where
  "toArray ds = JPromise ds"

fun index0 :: "jsval \<Rightarrow> doc option" where
  "index0 (JArray ds) = (case ds of [] \<Rightarrow> None | d # rest \<Rightarrow> Some d)"
| "index0 (JPromise ds) = None"

text \<open>The documents a tailable cursor opened after \<open>a\<close> will deliver, in log order.\<close>

definition after :: "doc \<Rightarrow> doc list \<Rightarrow> doc list" where
  "after a ds = filter (\<lambda>d. doc_id a < doc_id d) ds"

definition next_doc :: "nat \<Rightarrow> env \<Rightarrow> doc option" where
  "next_doc k e =
     (let c = cursors e ! k; ds = after (c_latest c) (the_log (c_coll c) e)
      in if c_sent c < length ds then Some (ds ! c_sent c) else None)"

definition cursor_close :: "nat \<Rightarrow> env \<Rightarrow> env" where
  "cursor_close k e =
     (if k < length (cursors e)
      then e\<lparr>cursors := (cursors e)[k := (cursors e ! k)\<lparr>c_open := False\<rparr>]\<rparr>
      else e)"

section \<open>The EventEmitter\<close>

text \<open>
  \<^verbatim>\<open>emit\<close> calls the listeners the event has at that moment, in the order they were
  added, synchronously and without catching anything: a listener that throws ends
  \<^verbatim>\<open>emit\<close>, and the listeners after it are not called.  A \<^verbatim>\<open>once\<close> listener is
  removed just before it is called.  Emitting 'error' when no listener is registered for
  it throws the value.  The result is \<open>True\<close> when \<^verbatim>\<open>emit\<close> returned and
  \<open>False\<close> when it threw.  User callbacks are recorded in \<open>calls\<close>; they do not
  call back into the channel.  A \<^verbatim>\<open>resolve\<close> moves its promise chain to the next
  stage (\<open>set_lstage\<close>, \<open>set_pstage\<close>).
\<close>

definition set_lstage :: "nat \<Rightarrow> lstage \<Rightarrow> channel \<Rightarrow> channel" where
  "set_lstage i s ch = ch\<lparr>listens := (listens ch)[i := (listens ch ! i)\<lparr>l_stage := s\<rparr>]\<rparr>"

definition set_pstage :: "nat \<Rightarrow> pstage \<Rightarrow> channel \<Rightarrow> channel" where
  "set_pstage j s ch = ch\<lparr>publishes := (publishes ch)[j := (publishes ch ! j)\<lparr>p_stage := s\<rparr>]\<rparr>"

fun call :: "string \<Rightarrow> arg \<Rightarrow> listener \<Rightarrow> channel \<Rightarrow> bool \<times> channel" where
  "call ev a (User cb) ch = (True, ch\<lparr>calls := calls ch @ [(cb, a)]\<rparr>)"
| "call ev a (Thrower cb) ch =
     (False, ch\<lparr>calls := calls ch @ [(cb, a)],
                uncaught := uncaught ch @ [Err (CallbackError cb)]\<rparr>)"
| "call ev a (ResolveLatest i) ch =
     (let c = ch\<lparr>listeners := remove1 (ev, ResolveLatest i) (listeners ch)\<rparr>
      in (True, if i < length (listens c) \<and> l_stage (listens c ! i) = AwaitCollection
                then set_lstage i Queued c else c))"
| "call ev a (ResolveReady j) ch =
     (let c = ch\<lparr>listeners := remove1 (ev, ResolveReady j) (listeners ch)\<rparr>
      in (True, if j < length (publishes c) \<and> p_stage (publishes c ! j) = AwaitReady
                then set_pstage j PQueued c else c))"

fun deliver :: "string \<Rightarrow> arg \<Rightarrow> listener list \<Rightarrow> channel \<Rightarrow> bool \<times> channel" where
  "deliver ev a [] ch = (True, ch)"
| "deliver ev a (l # ls) ch =
     (case call ev a l ch of
        (True, c) \<Rightarrow> deliver ev a ls c
      | (False, c) \<Rightarrow> (False, c))"

definition listeners_of :: "string \<Rightarrow> channel \<Rightarrow> listener list" where
  "listeners_of ev ch = map snd (filter (\<lambda>p. fst p = ev) (listeners ch))"

definition emit :: "string \<Rightarrow> arg \<Rightarrow> channel \<Rightarrow> bool \<times> channel" where
  "emit ev a ch =
     (if listeners_of ev ch = [] then
        (if ev = ''error'' then (False, ch\<lparr>uncaught := uncaught ch @ [a]\<rparr>) else (True, ch))
      else deliver ev a (listeners_of ev ch) ch)"

section \<open>The channel\<close>

subsection \<open>create\<close>

text \<open>
  \<^verbatim>\<open>this.connection.db ? create() : this.connection.once('connect', create)\<close>: the
  inner \<^verbatim>\<open>create\<close> issues \<^verbatim>\<open>createCollection(self.name, ...)\<close>, whose callback is
  then pending.
\<close>

definition create :: "channel \<Rightarrow> env \<Rightarrow> channel" where
  "create ch e =
     (if db e then ch\<lparr>creating := Suc (creating ch)\<rparr>
      else ch\<lparr>await_connect := Suc (await_connect ch)\<rparr>)"

datatype create_outcome = Created | AlreadyExists | CreateErr

text \<open>The callback given to \<^verbatim>\<open>createCollection\<close>.\<close>

definition create_cb :: "create_outcome \<Rightarrow> channel \<Rightarrow> env \<Rightarrow> channel \<times> env" where
  "create_cb oc ch e =
     (case oc of
        AlreadyExists \<Rightarrow> (create ch e, e)
      | CreateErr \<Rightarrow> (snd (emit ''error'' (Err CreateFailed) ch), e)
      | Created \<Rightarrow>
          (snd (emit ''collection'' (Coll (name ch)) (ch\<lparr>collection := Some (name ch)\<rparr>)),
           e\<lparr>logs := (logs e)(name ch \<mapsto> the_log (name ch) e)\<rparr>))"

subsection \<open>close\<close>

text \<open>
  \<^verbatim>\<open>close\<close> sets the flag and, if there is a cursor, closes it; the first component
  says whether the promise returned is already fulfilled (\<^verbatim>\<open>Promise.resolve()\<close>).
  The driver emits 'close' on the cursor it closes; the handler installed by
  \<^verbatim>\<open>listen\<close> returns at once there, because \<open>closed\<close> is already set.
  \<open>close_then\<close> is the callback that runs when \<^verbatim>\<open>cursor.close()\<close> is fulfilled.
\<close>

definition close :: "channel \<Rightarrow> env \<Rightarrow> bool \<times> channel \<times> env" where
  "close ch e =
     (let this = ch\<lparr>closed := True\<rparr>
      in case cursor this of
           Some k \<Rightarrow> (False, this, cursor_close k e)
         | None \<Rightarrow> (True, this, e))"

definition close_then :: "channel \<Rightarrow> channel" where
  "close_then ch = ch\<lparr>collection := None, cursor := None\<rparr>"

subsection \<open>latest\<close>

text \<open>
  A rejected \<^verbatim>\<open>latest\<close> rejects the promise of \<^verbatim>\<open>listen\<close>, which nobody handles.
\<close>

definition reject :: "nat \<Rightarrow> error \<Rightarrow> channel \<Rightarrow> channel" where
  "reject i err ch = (set_lstage i (Failed err) ch)\<lparr>uncaught := uncaught ch @ [Err err]\<rparr>"

text \<open>
  The executor of the first promise:
  \<^verbatim>\<open>self.collection ? resolve() : self.once('collection', resolve)\<close>.  The new chain is
  number \<open>length (listens ch)\<close>.
\<close>

definition latest :: "doc option \<Rightarrow> channel \<Rightarrow> channel" where
  "latest arg ch =
     (let i = length (listens ch)
      in case collection ch of
           Some c \<Rightarrow>
             ch\<lparr>listens := listens ch @
                   [\<lparr>l_arg = arg, l_stage = Queued, l_closed = False, l_fired = False\<rparr>]\<rparr>
         | None \<Rightarrow>
             ch\<lparr>listens := listens ch @
                   [\<lparr>l_arg = arg, l_stage = AwaitCollection, l_closed = False, l_fired = False\<rparr>],
                listeners := listeners ch @ [(''collection'', ResolveLatest i)]\<rparr>)"

text \<open>
  The first \<^verbatim>\<open>then\<close>: the query, \<^verbatim>\<open>{_id: latest._id}\<close> when \<^verbatim>\<open>latest\<close> was
  given and everything otherwise.  Reading \<^verbatim>\<open>self.collection.find\<close> when the
  collection is \<^verbatim>\<open>null\<close> throws, which rejects the chain.
\<close>

definition latest_find :: "nat \<Rightarrow> channel \<Rightarrow> env \<Rightarrow> channel" where
  "latest_find i ch e =
     (if i < length (listens ch) \<and> l_stage (listens ch ! i) = Queued then
        (case collection ch of
           None \<Rightarrow> reject i TypeError ch
         | Some c \<Rightarrow>
             set_lstage i
               (Found (index0 (toArray (limit1 (sort_natural_desc
                  (find_id (map_option doc_id (l_arg (listens ch ! i))) (the_log c e)))))))
               ch)
      else ch)"

text \<open>
  The second \<^verbatim>\<open>then\<close>: \<^verbatim>\<open>if (!doc) return self.collection.insertOne(...)\<close>, else
  \<^verbatim>\<open>return doc\<close>.
\<close>

definition latest_doc :: "nat \<Rightarrow> channel \<Rightarrow> channel" where
  "latest_doc i ch =
     (if i < length (listens ch) then
        (case l_stage (listens ch ! i) of
           Found None \<Rightarrow>
             (case collection ch of
                None \<Rightarrow> reject i TypeError ch
              | Some c \<Rightarrow> set_lstage i (Inserting c) ch)
         | Found (Some d) \<Rightarrow> set_lstage i (Anchored d) ch
         | _ \<Rightarrow> ch)
      else ch)"

text \<open>
  The callback of the dummy's \<^verbatim>\<open>insertOne\<close>:
  \<^verbatim>\<open>res.result.ok ? res.ops[0] : Promise.reject(new Error('failed to insert dummy'))\<close>.
\<close>

definition latest_inserted :: "nat \<Rightarrow> write_outcome \<Rightarrow> channel \<Rightarrow> env \<Rightarrow> channel \<times> env" where
  "latest_inserted i oc ch e =
     (if i < length (listens ch) then
        (case l_stage (listens ch ! i) of
           Inserting c \<Rightarrow>
             (case oc of
                Written \<Rightarrow>
                  (set_lstage i (Anchored (new_doc None None True (the_log c e))) ch,
                   insertOne c None None True e)
              | NotOk \<Rightarrow> (reject i DummyFailed ch, e)
              | Rejected \<Rightarrow> (reject i WriteFailed ch, e))
         | _ \<Rightarrow> (ch, e))
      else (ch, e))"

subsection \<open>listen\<close>

text \<open>
  \<^verbatim>\<open>Promise.all([this.latest(latest), this.close()])\<close>: both calls are made at once, in
  this order; the \<^verbatim>\<open>then\<close> callback runs when both promises are fulfilled.
\<close>

definition listen :: "doc option \<Rightarrow> channel \<Rightarrow> env \<Rightarrow> channel \<times> env" where
  "listen arg ch e =
     (let i = length (listens ch);
          ch1 = latest arg ch;
          (fulfilled, ch2, e2) = close ch1 e
      in (ch2\<lparr>listens := (listens ch2)[i := (listens ch2 ! i)\<lparr>l_closed := fulfilled\<rparr>]\<rparr>, e2))"

text \<open>The handler of the cursor's 'close' event; \<open>d\<close> is the \<^verbatim>\<open>_latest\<close> it closed over.\<close>

definition on_close :: "doc \<Rightarrow> channel \<Rightarrow> env \<Rightarrow> channel \<times> env" where
  "on_close d ch e =
     (if closed ch \<or> destroyed e then (ch, e)
      else
        (case emit ''error'' (Err BrokenCursor) ch of
           (False, ch1) \<Rightarrow> (ch1, e)
         | (True, ch1) \<Rightarrow>
             (if recreate ch1 then listen (Some d) (create ch1 e) e else (ch1, e))))"

text \<open>
  The handler of the cursor's 'data' event.  \<^verbatim>\<open>if (doc.event)\<close> is false for an
  absent event and for the empty string; an \<^verbatim>\<open>emit\<close> that throws ends the handler.
\<close>

definition on_data :: "doc option \<Rightarrow> channel \<Rightarrow> env \<Rightarrow> channel" where
  "on_data x ch e =
     (if closed ch \<or> destroyed e then ch
      else
        (case x of
           None \<Rightarrow> ch
         | Some d \<Rightarrow>
             (let (returned, ch1) =
                    (case doc_event d of
                       None \<Rightarrow> (True, ch)
                     | Some ev \<Rightarrow>
                         (if ev = [] then (True, ch)
                          else
                            (case emit ev (Msg (doc_message d)) ch of
                               (False, c) \<Rightarrow> (False, c)
                             | (True, c) \<Rightarrow> emit ''message'' (Msg (doc_message d)) c)))
              in if returned then snd (emit ''document'' (Document d) ch1) else ch1)))"

text \<open>
  The \<^verbatim>\<open>then\<close> callback of \<^verbatim>\<open>listen\<close>.  \<^verbatim>\<open>this.closed = false\<close> comes first; then
  \<^verbatim>\<open>this.collection.find\<close> throws when the collection is \<^verbatim>\<open>null\<close>, which rejects
  the promise of \<^verbatim>\<open>listen\<close>; otherwise the new cursor is opened after \<^verbatim>\<open>_latest\<close>,
  the two handlers are installed on it and 'ready' is emitted.
\<close>

definition listen_then :: "nat \<Rightarrow> channel \<Rightarrow> env \<Rightarrow> channel \<times> env" where
  "listen_then i ch e =
     (if i < length (listens ch) \<and> l_closed (listens ch ! i) \<and> \<not> l_fired (listens ch ! i) then
        (case l_stage (listens ch ! i) of
           Anchored d \<Rightarrow>
             (let this = ch\<lparr>closed := False,
                            listens := (listens ch)[i := (listens ch ! i)\<lparr>l_fired := True\<rparr>]\<rparr>
              in case collection this of
                   None \<Rightarrow> (this\<lparr>uncaught := uncaught this @ [Err TypeError]\<rparr>, e)
                 | Some c \<Rightarrow>
                     (snd (emit ''ready'' (Coll c) (this\<lparr>cursor := Some (length (cursors e))\<rparr>)),
                      e\<lparr>cursors := cursors e @
                           [\<lparr>c_coll = c, c_latest = d, c_sent = 0, c_open = True\<rparr>]\<rparr>))
         | _ \<Rightarrow> (ch, e))
      else (ch, e))"

subsection \<open>ready and publish\<close>

text \<open>
  \<^verbatim>\<open>ready\<close> for the publish chain number \<open>j\<close>: fulfilled at once when
  \<^verbatim>\<open>this.collection\<close> is set, else a \<^verbatim>\<open>once('ready', resolve)\<close>.
\<close>

definition ready :: "nat \<Rightarrow> channel \<Rightarrow> bool \<times> channel" where
  "ready j ch =
     (case collection ch of
        Some c \<Rightarrow> (True, ch)
      | None \<Rightarrow> (False, ch\<lparr>listeners := listeners ch @ [(''ready'', ResolveReady j)]\<rparr>))"

definition publish :: "string \<Rightarrow> payload option \<Rightarrow> channel \<Rightarrow> channel" where
  "publish ev m ch =
     (let j = length (publishes ch);
          (fulfilled, ch1) = ready j ch
      in ch1\<lparr>publishes := publishes ch1 @
               [\<lparr>p_event = ev, p_message = m,
                 p_stage = (if fulfilled then PQueued else AwaitReady)\<rparr>]\<rparr>)"

text \<open>
  The first \<^verbatim>\<open>then\<close> of \<^verbatim>\<open>publish\<close>:
  \<^verbatim>\<open>this.collection.insertOne({event: event, message: message}, ...)\<close>.
\<close>

definition publish_then :: "nat \<Rightarrow> channel \<Rightarrow> channel" where
  "publish_then j ch =
     (if j < length (publishes ch) \<and> p_stage (publishes ch ! j) = PQueued then
        (case collection ch of
           None \<Rightarrow> set_pstage j (PRejected TypeError) ch
         | Some c \<Rightarrow> set_pstage j (PInserting c) ch)
      else ch)"

text \<open>
  The second \<^verbatim>\<open>then\<close>: \<^verbatim>\<open>res => res.ops[0]\<close>, whatever \<^verbatim>\<open>res.result.ok\<close> is.
\<close>

definition publish_inserted :: "nat \<Rightarrow> write_outcome \<Rightarrow> channel \<Rightarrow> env \<Rightarrow> channel \<times> env" where
  "publish_inserted j oc ch e =
     (if j < length (publishes ch) then
        (case p_stage (publishes ch ! j) of
           PInserting c \<Rightarrow>
             (let t = publishes ch ! j;
                  d = new_doc (Some (p_event t)) (p_message t) False (the_log c e)
              in case oc of
                   Written \<Rightarrow>
                     (set_pstage j (PResolved d) ch,
                      insertOne c (Some (p_event t)) (p_message t) False e)
                 | NotOk \<Rightarrow> (set_pstage j (PResolved d) ch, e)
                 | Rejected \<Rightarrow> (set_pstage j (PRejected WriteFailed) ch, e))
         | _ \<Rightarrow> (ch, e))
      else (ch, e))"

subsection \<open>subscribe\<close>

text \<open>
  \<^verbatim>\<open>subscribe(event, callback)\<close>; when the event is left out the callback is
  registered for 'message'.  \<open>subscribe\<close> is the call with a callback that returns,
  \<open>subscribe_thrower\<close> the call with a callback that throws.  \<^verbatim>\<open>unsubscribe\<close> is
  \<^verbatim>\<open>removeListener\<close>, which removes the most recently added instance of the pair.
\<close>

definition subscribe :: "string option \<Rightarrow> nat \<Rightarrow> channel \<Rightarrow> channel" where
  "subscribe ev cb ch =
     ch\<lparr>listeners := listeners ch @
          [(case ev of None \<Rightarrow> ''message'' | Some n \<Rightarrow> n, User cb)]\<rparr>"

definition subscribe_thrower :: "string option \<Rightarrow> nat \<Rightarrow> channel \<Rightarrow> channel" where
  "subscribe_thrower ev cb ch =
     ch\<lparr>listeners := listeners ch @
          [(case ev of None \<Rightarrow> ''message'' | Some n \<Rightarrow> n, Thrower cb)]\<rparr>"

definition unsubscribe :: "string \<Rightarrow> nat \<Rightarrow> channel \<Rightarrow> channel" where
  "unsubscribe ev cb ch = ch\<lparr>listeners := rev (remove1 (ev, User cb) (rev (listeners ch)))\<rparr>"

subsection \<open>The constructor\<close>

definition Channel :: "string option \<Rightarrow> options \<Rightarrow> env \<Rightarrow> channel \<times> env" where
  "Channel nm opts e =
     (let this =
            \<lparr>size = (case opt_size opts of None \<Rightarrow> 1024 * 1024 * 5
                      | Some s \<Rightarrow> if s = 0 then 1024 * 1024 * 5 else s),
             recreate = (case opt_recreate opts of None \<Rightarrow> True
                         | Some r \<Rightarrow> if r then r else True),
             closed = True,
             name = (case nm of None \<Rightarrow> ''mubsub''
                     | Some n \<Rightarrow> if n = [] then ''mubsub'' else n),
             retryInterval = (case opt_retryInterval opts of None \<Rightarrow> 200
                              | Some r \<Rightarrow> if r = 0 then 200 else r),
             collection = None, cursor = None, listeners = [],
             creating = 0, await_connect = 0, listens = [], user_closes = 0,
             publishes = [], calls = [], uncaught = []\<rparr>
      in listen None (create this e) e)"

section \<open>The environment's turns\<close>

text \<open>
  What can happen next: the connection connects or is destroyed; a pending driver call
  completes; a queued promise callback runs; an open cursor emits its next document or
  breaks; another process appends to a collection; the user calls \<^verbatim>\<open>subscribe\<close>,
  \<^verbatim>\<open>unsubscribe\<close>, \<^verbatim>\<open>publish\<close> or \<^verbatim>\<open>close\<close>.  An event that is not enabled
  leaves everything as it is.

  A cursor delivers the documents of its collection that come after its anchor, in log
  order and each once, and only while it is open.  A cursor that breaks is closed from
  then on, and its 'close' handler runs once, at that moment.

  \<open>fire\<close> is one turn and \<open>run\<close> takes a list of turns in whatever order it is
  given: more orders than Node takes.  What holds of every \<open>run\<close> holds of the
  program; the orders Node does take are singled out below by \<open>real_order\<close>.
\<close>

datatype event =
    Connect
  | Destroy
  | CreateDone create_outcome
  | LatestFind nat
  | LatestDoc nat
  | LatestInserted nat write_outcome
  | CloseThen "nat option"
  | ListenThen nat
  | Data nat
  | Broken nat
  | Append string "string option" "payload option" bool
  | Subscribe "string option" nat
  | SubscribeThrower "string option" nat
  | Unsubscribe string nat
  | Publish string "payload option"
  | PublishThen nat
  | PublishInserted nat write_outcome
  | Close

fun fire :: "event \<Rightarrow> channel \<times> env \<Rightarrow> channel \<times> env" where
  "fire Connect (ch, e) =
     (ch\<lparr>creating := creating ch + await_connect ch, await_connect := 0\<rparr>, e\<lparr>db := True\<rparr>)"
| "fire Destroy (ch, e) = (ch, e\<lparr>destroyed := True\<rparr>)"
| "fire (CreateDone oc) (ch, e) =
     (if 0 < creating ch then create_cb oc (ch\<lparr>creating := creating ch - 1\<rparr>) e else (ch, e))"
| "fire (LatestFind i) (ch, e) = (latest_find i ch e, e)"
| "fire (LatestDoc i) (ch, e) = (latest_doc i ch, e)"
| "fire (LatestInserted i oc) (ch, e) = latest_inserted i oc ch e"
| "fire (CloseThen None) (ch, e) =
     (if 0 < user_closes ch then (close_then (ch\<lparr>user_closes := user_closes ch - 1\<rparr>), e)
      else (ch, e))"
| "fire (CloseThen (Some i)) (ch, e) =
     (if i < length (listens ch) \<and> \<not> l_closed (listens ch ! i) then
        (close_then (ch\<lparr>listens := (listens ch)[i := (listens ch ! i)\<lparr>l_closed := True\<rparr>]\<rparr>), e)
      else (ch, e))"
| "fire (ListenThen i) (ch, e) = listen_then i ch e"
| "fire (Data k) (ch, e) =
     (if k < length (cursors e) \<and> c_open (cursors e ! k) then
        (case next_doc k e of
           None \<Rightarrow> (ch, e)
         | Some d \<Rightarrow>
             (on_data (Some d) ch e,
              e\<lparr>cursors := (cursors e)[k := (cursors e ! k)\<lparr>c_sent := Suc (c_sent (cursors e ! k))\<rparr>]\<rparr>))
      else (ch, e))"
| "fire (Broken k) (ch, e) =
     (if k < length (cursors e) \<and> c_open (cursors e ! k)
      then on_close (c_latest (cursors e ! k)) ch (cursor_close k e)
      else (ch, e))"
| "fire (Append c ev m dm) (ch, e) = (ch, insertOne c ev m dm e)"
| "fire (Subscribe ev cb) (ch, e) = (subscribe ev cb ch, e)"
| "fire (SubscribeThrower ev cb) (ch, e) = (subscribe_thrower ev cb ch, e)"
| "fire (Unsubscribe ev cb) (ch, e) = (unsubscribe ev cb ch, e)"
| "fire (Publish ev m) (ch, e) = (publish ev m ch, e)"
| "fire (PublishThen j) (ch, e) = (publish_then j ch, e)"
| "fire (PublishInserted j oc) (ch, e) = publish_inserted j oc ch e"
| "fire Close (ch, e) =
     (case close ch e of
        (True, ch1, e1) \<Rightarrow> (ch1, e1)
      | (False, ch1, e1) \<Rightarrow> (ch1\<lparr>user_closes := Suc (user_closes ch1)\<rparr>, e1))"

definition run :: "event list \<Rightarrow> channel \<times> env \<Rightarrow> channel \<times> env" where
  "run evs w = foldl (\<lambda>w ev. fire ev w) w evs"


section \<open>The order of the turns\<close>

text \<open>
  Node runs a promise callback as a microtask.  It is queued at the moment the promise it
  was attached to is fulfilled, or at once when it is attached to a promise that is
  already fulfilled; the queued callbacks run first in, first out, and the queue is
  emptied before the next callback of the driver or of a cursor is called.

  In this program: the first callback of \<^verbatim>\<open>latest\<close> is queued when
  \<^verbatim>\<open>resolve\<close> is called, at once if \<^verbatim>\<open>this.collection\<close> is set and by the
  'collection' event otherwise; its second callback is queued when the first returns.
  \<^verbatim>\<open>cursor.close()\<close> returns a promise that is already fulfilled, so the callback of
  \<^verbatim>\<open>close\<close> that releases the collection is queued by the call of \<^verbatim>\<open>close\<close>
  itself; inside \<^verbatim>\<open>listen\<close> that is right after \<^verbatim>\<open>latest\<close> was called.  The
  first callback of \<^verbatim>\<open>publish\<close> is queued by the call when \<^verbatim>\<open>this.collection\<close>
  is set, and by the 'ready' event otherwise.  The callback of \<^verbatim>\<open>listen\<close> hangs on
  \<^verbatim>\<open>Promise.all\<close>: it runs some microtasks after the second of its two promises is
  fulfilled, and before any callback of the driver.

  \<open>enqueued ch ch'\<close> lists the callbacks a turn from \<open>ch\<close> to \<open>ch'\<close> has queued,
  in the order the code queues them.
\<close>

fun anchored :: "lstage \<Rightarrow> bool" where
  "anchored (Anchored d) = True"
| "anchored s = False"

fun found :: "lstage \<Rightarrow> bool" where
  "found (Found x) = True"
| "found s = False"

definition due :: "channel \<Rightarrow> nat \<Rightarrow> bool" where
  "due ch i =
     (i < length (listens ch) \<and> l_closed (listens ch ! i) \<and> \<not> l_fired (listens ch ! i) \<and>
      anchored (l_stage (listens ch ! i)))"

definition enqueued :: "channel \<Rightarrow> channel \<Rightarrow> event list" where
  "enqueued ch ch' =
     map LatestFind
       (filter (\<lambda>i. l_stage (listens ch' ! i) = Queued \<and>
                    (if i < length (listens ch) then l_stage (listens ch ! i) \<noteq> Queued else True))
          [0..<length (listens ch')]) @
     map (\<lambda>i. CloseThen (Some i))
       (filter (\<lambda>i. \<not> l_closed (listens ch' ! i)) [length (listens ch)..<length (listens ch')]) @
     replicate (user_closes ch' - user_closes ch) (CloseThen None) @
     map PublishThen
       (filter (\<lambda>j. p_stage (publishes ch' ! j) = PQueued \<and>
                    (if j < length (publishes ch) then p_stage (publishes ch ! j) \<noteq> PQueued
                     else True))
          [0..<length (publishes ch')]) @
     map LatestDoc
       (filter (\<lambda>i. found (l_stage (listens ch' ! i)) \<and>
                    (if i < length (listens ch) then \<not> found (l_stage (listens ch ! i)) else True))
          [0..<length (listens ch')])"

text \<open>
  The callbacks that wait in the queue, and the turns that are callbacks of the driver, of
  the connection or of a cursor.  The remaining turns are calls made by the user and
  changes made by others (a write of another process, the connection being destroyed):
  they can come at any moment.
\<close>

fun queued :: "event \<Rightarrow> bool" where
  "queued (LatestFind i) = True"
| "queued (LatestDoc i) = True"
| "queued (CloseThen x) = True"
| "queued (PublishThen j) = True"
| "queued ev = False"

fun io :: "event \<Rightarrow> bool" where
  "io Connect = True"
| "io (CreateDone oc) = True"
| "io (LatestInserted i oc) = True"
| "io (PublishInserted j oc) = True"
| "io (Data k) = True"
| "io (Broken k) = True"
| "io ev = False"

text \<open>
  A state of the schedule is the channel with its environment, and the queue.  A queued
  callback runs when it is at the head of the queue; a callback of the driver runs when
  the queue is empty and no callback of \<^verbatim>\<open>listen\<close> is due.
\<close>

type_synonym sched = "(channel \<times> env) \<times> event list"

definition allowed :: "event \<Rightarrow> sched \<Rightarrow> bool" where
  "allowed ev s =
     (if queued ev then (case snd s of [] \<Rightarrow> False | x # xs \<Rightarrow> x = ev)
      else if io ev then
        snd s = [] \<and>
        filter (due (fst (fst s))) [0..<length (listens (fst (fst s)))] = []
      else True)"

definition tick :: "event \<Rightarrow> sched \<Rightarrow> sched" where
  "tick ev s =
     (fire ev (fst s),
      (if queued ev then tl (snd s) else snd s) @
      enqueued (fst (fst s)) (fst (fire ev (fst s))))"

fun real_order :: "event list \<Rightarrow> sched \<Rightarrow> bool" where
  "real_order [] s = True"
| "real_order (ev # evs) s = (allowed ev s \<and> real_order evs (tick ev s))"

definition rrun :: "event list \<Rightarrow> sched \<Rightarrow> sched" where
  "rrun evs s = foldl (\<lambda>s ev. tick ev s) s evs"

text \<open>The constructor queues nothing: the collection is not set and there is no cursor.\<close>

definition start :: "string option \<Rightarrow> options \<Rightarrow> env \<Rightarrow> sched" where
  "start nm opts e = (Channel nm opts e, [])"
section \<open>Observations and scenarios\<close>

text \<open>The user callbacks subscribed to an event, in registration order.\<close>

definition subscribers :: "string \<Rightarrow> channel \<Rightarrow> nat list" where
  "subscribers ev ch =
     concat (map (\<lambda>p. case snd p of User cb \<Rightarrow> if fst p = ev then [cb] else [] | _ \<Rightarrow> [])
                 (listeners ch))"

text \<open>The user callbacks subscribed to an event that throw when called.\<close>

definition throwers :: "string \<Rightarrow> channel \<Rightarrow> nat list" where
  "throwers ev ch =
     concat (map (\<lambda>p. case snd p of Thrower cb \<Rightarrow> if fst p = ev then [cb] else [] | _ \<Rightarrow> [])
                 (listeners ch))"

text \<open>
  The events the data handler emits for one entry: its event name and 'message' when it
  carries a name, and 'document'.
\<close>

definition route_events :: "doc \<Rightarrow> string list" where
  "route_events d =
     (case doc_event d of
        None \<Rightarrow> []
      | Some ev \<Rightarrow> if ev = [] then [] else [ev, ''message'']) @ [''document'']"

text \<open>
  The routing the specification describes for one entry: the subscribers of its event
  name, then the wildcard subscribers, both with the payload; then the raw-document
  observers with the entry itself.  An entry carries an event name when the field is
  present and not the empty string.
\<close>

definition spec_route :: "channel \<Rightarrow> doc \<Rightarrow> (nat \<times> arg) list" where
  "spec_route ch d =
     (case doc_event d of
        None \<Rightarrow> []
      | Some ev \<Rightarrow>
          if ev = [] then []
          else map (\<lambda>cb. (cb, Msg (doc_message d))) (subscribers ev ch) @
               map (\<lambda>cb. (cb, Msg (doc_message d))) (subscribers ''message'' ch)) @
     map (\<lambda>cb. (cb, Document d)) (subscribers ''document'' ch)"

text \<open>A connected, empty database; default options; the options with \<^verbatim>\<open>recreate: false\<close>.\<close>

definition env0 :: env where
  "env0 = \<lparr>db = True, destroyed = False, logs = (\<lambda>c. None), cursors = []\<rparr>"

definition opts0 :: options where
  "opts0 = \<lparr>opt_size = None, opt_retryInterval = None, opt_recreate = None\<rparr>"

definition opts_norecreate :: options where
  "opts_norecreate = \<lparr>opt_size = None, opt_retryInterval = None, opt_recreate = Some False\<rparr>"

text \<open>
  An undisturbed start: the collection is created, \<^verbatim>\<open>latest\<close> runs through its three
  callbacks, and the \<^verbatim>\<open>then\<close> of \<^verbatim>\<open>listen\<close> opens the first cursor.
\<close>

definition startup :: "event list" where
  "startup = [CreateDone Created, LatestFind 0, LatestDoc 0, LatestInserted 0 Written, ListenThen 0]"

text \<open>The entries used in the scenarios.\<close>

definition dummy_at :: "nat \<Rightarrow> doc" where
  "dummy_at n = \<lparr>doc_id = n, doc_event = None, doc_message = None, doc_dummy = True\<rparr>"

definition entry :: "nat \<Rightarrow> string \<Rightarrow> string \<Rightarrow> doc" where
  "entry n ev m = \<lparr>doc_id = n, doc_event = Some ev, doc_message = Some m, doc_dummy = False\<rparr>"

text \<open>A database whose collection \<^verbatim>\<open>mubsub\<close> already holds one published entry.\<close>

definition env1 :: env where
  "env1 = env0\<lparr>logs := (\<lambda>c. None)(''mubsub'' \<mapsto> [entry 0 ''foo'' ''a''])\<rparr>"

text \<open>
  A tailing channel with a wildcard subscriber and a raw-document observer, after another
  process has published an entry whose event name is \<^verbatim>\<open>error\<close>; a tailing channel
  with a subscriber of \<^verbatim>\<open>foo\<close> that throws, a wildcard subscriber and a
  raw-document observer, after \<^verbatim>\<open>foo\<close> has been published; a tailing channel with
  a subscriber of the empty name, a wildcard subscriber and a raw-document observer, after
  an entry with the empty name has been published; and a tailing channel with a subscriber
  of \<^verbatim>\<open>foo\<close>, a wildcard subscriber, a raw-document observer and an 'error'
  listener.
\<close>

definition wild :: "event list" where
  "wild = startup @ [Subscribe None 1, Subscribe (Some ''document'') 2,
       Append ''mubsub'' (Some ''error'') (Some ''x'') False]"

definition wild_world :: "channel \<times> env" where
  "wild_world = run wild (Channel None opts0 env0)"

definition throwing :: "event list" where
  "throwing = startup @ [SubscribeThrower (Some ''foo'') 1, Subscribe None 2,
       Subscribe (Some ''document'') 3, Append ''mubsub'' (Some ''foo'') (Some ''a'') False]"

definition thrower_world :: "channel \<times> env" where
  "thrower_world = run throwing (Channel None opts0 env0)"

definition unnamed :: "event list" where
  "unnamed = startup @ [Subscribe (Some []) 1, Subscribe None 2,
       Subscribe (Some ''document'') 3, Append ''mubsub'' (Some []) (Some ''a'') False]"

definition unnamed_world :: "channel \<times> env" where
  "unnamed_world = run unnamed (Channel None opts0 env0)"

definition tailing_world :: "channel \<times> env" where
  "tailing_world = run (startup @ [Subscribe (Some ''foo'') 1, Subscribe None 2,
       Subscribe (Some ''document'') 3, Subscribe (Some ''error'') 4]) (Channel None opts0 env0)"

text \<open>
  A channel whose collection has just been created, while its first \<^verbatim>\<open>listen\<close> is
  still pending; and the turns in which a \<^verbatim>\<open>publish('foo', 'x')\<close> issued at that
  moment runs to its end, while \<^verbatim>\<open>latest\<close> gets as far as issuing the insert of
  its dummy; \<open>queued_publish_world\<close> is the moment the callback of that publish is
  about to run.
\<close>

definition created_world :: "channel \<times> env" where
  "created_world = run [CreateDone Created] (Channel None opts0 env0)"

definition early_publish :: "event list" where
  "early_publish =
     [CreateDone Created, Publish ''foo'' (Some ''x''), LatestFind 0, PublishThen 0, LatestDoc 0,
      PublishInserted 0 Written]"

definition early_publish_world :: "channel \<times> env" where
  "early_publish_world = run early_publish (Channel None opts0 env0)"

text \<open>
  On a tailing channel the user calls \<^verbatim>\<open>close()\<close> and, in the same turn,
  \<^verbatim>\<open>publish('foo', 'x')\<close>: the callback of the close runs before the callback of
  the publish; \<open>released_publish_world\<close> is the moment the callback of the publish is
  about to run.  And the user calls \<^verbatim>\<open>close()\<close> and, after its callback has run,
  \<^verbatim>\<open>publish('foo', 'x')\<close>.
\<close>

definition queued_publish_world :: "channel \<times> env" where
  "queued_publish_world = run (take 3 early_publish) (Channel None opts0 env0)"

definition publish_in_close :: "event list" where
  "publish_in_close = startup @ [Close, Publish ''foo'' (Some ''x''), CloseThen None, PublishThen 0]"

definition released_publish_world :: "channel \<times> env" where
  "released_publish_world = run (butlast publish_in_close) (Channel None opts0 env0)"

definition publish_after_close :: "event list" where
  "publish_after_close = startup @ [Close, CloseThen None, Publish ''foo'' (Some ''x'')]"

text \<open>
  The user registers a listener for 'ready' that throws, and calls
  \<^verbatim>\<open>publish('foo', 'x')\<close>, before the collection exists; then the channel starts up.
\<close>

definition publish_behind_thrower :: "event list" where
  "publish_behind_thrower =
     [SubscribeThrower (Some ''ready'') 5, Publish ''foo'' (Some ''x'')] @ startup"

text \<open>
  The flags the stream invariant speaks about: for every \<^verbatim>\<open>listen\<close> chain, whether
  its \<^verbatim>\<open>then\<close> callback has run; for every cursor, whether it is open.  The
  invariant: at most one cursor is open, at most one chain has not run its callback, and
  while there is such a chain the channel is closed and no cursor is open.
\<close>

definition fired :: "channel \<Rightarrow> bool list" where
  "fired ch = map l_fired (listens ch)"

definition opens :: "env \<Rightarrow> bool list" where
  "opens e = map c_open (cursors e)"

definition stream_inv :: "channel \<times> env \<Rightarrow> bool" where
  "stream_inv w =
     (length (filter (\<lambda>b. b) (opens (snd w))) \<le> 1 \<and>
      length (filter Not (fired (fst w))) \<le> 1 \<and>
      (False \<in> set (fired (fst w)) \<longrightarrow> closed (fst w) \<and> True \<notin> set (opens (snd w))))"

text \<open>A chain whose \<^verbatim>\<open>then\<close> callback has run had its anchor.\<close>

definition chain_inv :: "channel \<Rightarrow> bool" where
  "chain_inv ch = (\<forall>t \<in> set (listens ch). l_fired t \<longrightarrow> anchored (l_stage t))"

text \<open>
  A connection on which an earlier cursor has been opened and closed; and a channel started
  on it whose stream broke and whose recovery is looking up its anchor.
\<close>

definition env_used :: env where
  "env_used = env0\<lparr>cursors := [\<lparr>c_coll = ''mubsub'', c_latest = dummy_at 0, c_sent = 0,
                                 c_open = False\<rparr>]\<rparr>"

definition recovering_world :: "channel \<times> env" where
  "recovering_world =
     run (startup @ [Subscribe (Some ''error'') 9, Broken 1, LatestFind 1])
       (Channel None opts0 env_used)"


text \<open>
  The user subscribes and calls \<^verbatim>\<open>close()\<close> right after constructing the channel,
  before the collection exists.
\<close>

definition early_close :: "event list" where
  "early_close = [Subscribe (Some ''foo'') 1, Subscribe (Some ''error'') 9, Close]"

text \<open>
  A tailing channel with an 'error' listener and a subscriber of \<^verbatim>\<open>foo\<close> delivers
  the entry \<^verbatim>\<open>a\<close> at position 1; then its stream breaks; then \<^verbatim>\<open>b\<close> is
  published at position 2 while the recovery runs: \<^verbatim>\<open>latest\<close> issues its query,
  the callback of the \<^verbatim>\<open>close\<close> inside \<^verbatim>\<open>listen\<close> releases the collection,
  the second callback of \<^verbatim>\<open>latest\<close> runs, \<^verbatim>\<open>createCollection\<close> completes, and
  both cursors are polled.
\<close>

definition delivering :: "event list" where
  "delivering = startup @ [Subscribe (Some ''error'') 9, Subscribe (Some ''foo'') 1,
                     Append ''mubsub'' (Some ''foo'') (Some ''a'') False, Data 0]"

definition recovery :: "event list" where
  "recovery = [Append ''mubsub'' (Some ''foo'') (Some ''b'') False, LatestFind 1,
               CloseThen (Some 1), LatestDoc 1, CreateDone Created, Data 0, Data 1]"

text \<open>
  The stream of a tailing channel breaks when the 'error' listener throws, when there is
  no 'error' listener, and after the connection was destroyed.
\<close>

definition break_thrower :: "event list" where
  "break_thrower = startup @ [SubscribeThrower (Some ''error'') 9, Broken 0]"

definition break_unheard :: "event list" where
  "break_unheard = startup @ [Broken 0]"

definition break_destroyed :: "event list" where
  "break_destroyed = startup @ [Subscribe (Some ''error'') 9, Destroy, Broken 0]"

definition delivered_world :: "channel \<times> env" where
  "delivered_world = run delivering (Channel None opts0 env0)"

definition broken_world :: "channel \<times> env" where
  "broken_world = fire (Broken 0) delivered_world"

definition recovered_world :: "channel \<times> env" where
  "recovered_world = run recovery broken_world"

section \<open>The states Node's order reaches\<close>

text \<open>
  Until the first stream is opened the channel has its one \<^verbatim>\<open>listen\<close> chain, started
  by the constructor with no cursor to close; there is no cursor, no close is pending and
  no callback of a close is queued; and as long as the collection is not set the chain has
  not read it (\<open>early\<close>).
\<close>

fun early :: "lstage \<Rightarrow> bool" where
  "early AwaitCollection = True"
| "early Queued = True"
| "early (Failed err) = True"
| "early s = False"

definition starting :: "sched \<Rightarrow> bool" where
  "starting s =
     (length (listens (fst (fst s))) = 1 \<and> \<not> l_fired (listens (fst (fst s)) ! 0) \<and>
      l_closed (listens (fst (fst s)) ! 0) \<and>
      cursor (fst (fst s)) = None \<and> user_closes (fst (fst s)) = 0 \<and>
      (collection (fst (fst s)) = None \<longrightarrow> early (l_stage (listens (fst (fst s)) ! 0))) \<and>
      cursors (snd (fst s)) = [] \<and> (\<forall>x. CloseThen x \<notin> set (snd s)))"

text \<open>
  A \<^verbatim>\<open>listen\<close> chain started by the close handler is \<open>doomed\<close>: it was started
  on a channel that had its collection and its cursor, so the first callback of
  \<^verbatim>\<open>latest\<close> and, behind it, the callback of the \<^verbatim>\<open>close\<close> that releases the
  collection were queued together.  Either the chain is rejected already; or its first
  callback is still queued, its second is not, and the collection is released or its
  release is queued; or its first callback has passed on \<^verbatim>\<open>undefined\<close>, its second
  is queued, and the collection is released or its release is queued ahead of it.
\<close>

definition doomed :: "nat \<Rightarrow> channel \<Rightarrow> event list \<Rightarrow> bool" where
  "doomed i ch q =
     (case l_stage (listens ch ! i) of
        Failed err \<Rightarrow> True
      | Queued \<Rightarrow>
          LatestFind i \<in> set q \<and> LatestDoc i \<notin> set q \<and>
          (collection ch = None \<or>
           \<not> l_closed (listens ch ! i) \<and> CloseThen (Some i) \<in> set q)
      | Found None \<Rightarrow>
          LatestDoc i \<in> set q \<and>
          (collection ch = None \<or>
           \<not> l_closed (listens ch ! i) \<and>
           CloseThen (Some i) \<in> set (takeWhile (\<lambda>x. x \<noteq> LatestDoc i) q))
      | _ \<Rightarrow> False)"

text \<open>
  Once the first stream has been opened: the first chain has run its callback; the channel
  is closed, or else it has its cursor and its collection and no close is pending; one
  cursor has been opened in all; and every later chain is doomed.
\<close>

definition tailed :: "sched \<Rightarrow> bool" where
  "tailed s =
     (listens (fst (fst s)) \<noteq> [] \<and> l_fired (listens (fst (fst s)) ! 0) \<and>
      (closed (fst (fst s)) \<or>
       cursor (fst (fst s)) \<noteq> None \<and> collection (fst (fst s)) \<noteq> None \<and>
       user_closes (fst (fst s)) = 0 \<and> (\<forall>t \<in> set (listens (fst (fst s))). l_closed t)) \<and>
      length (cursors (snd (fst s))) = 1 \<and>
      (\<forall>i. 0 < i \<and> i < length (listens (fst (fst s))) \<longrightarrow> doomed i (fst (fst s)) (snd s)))"

definition sound :: "sched \<Rightarrow> bool" where
  "sound s = (starting s \<or> tailed s)"




text \<open>Stages that wait for the store.\<close>

fun inserting :: "lstage \<Rightarrow> bool" where
  "inserting (Inserting c) = True"
| "inserting s = False"

section \<open>Basic facts\<close>

lemmas turn_defs = create_def create_cb_def close_def close_then_def latest_def latest_find_def
  latest_doc_def latest_inserted_def listen_def on_close_def on_data_def listen_then_def
  ready_def publish_def publish_then_def publish_inserted_def subscribe_def
  subscribe_thrower_def unsubscribe_def reject_def
  emit_def listeners_of_def set_lstage_def set_pstage_def
  the_log_def new_doc_def insertOne_def find_id_def sort_natural_desc_def limit1_def toArray_def
  after_def next_doc_def cursor_close_def

text \<open>
  What holds before \<^verbatim>\<open>emit\<close> and is kept by every call of a listener holds after it.
\<close>

lemma deliver_preserves:
  assumes "P ch" and "\<And>c l. P c \<Longrightarrow> l \<in> set ls \<Longrightarrow> P (snd (call ev a l c))"
  shows "P (snd (deliver ev a ls ch))"
  using assms
proof (induction ls arbitrary: ch)
  case Nil
  then show ?case by simp
next
  case (Cons l ls)
  obtain r c where rc: "call ev a l ch = (r, c)" by (cases "call ev a l ch")
  have c: "P c" using Cons.prems(2) [OF Cons.prems(1), of l] rc by simp
  show ?case
  proof (cases r)
    case True
    have "P (snd (deliver ev a ls c))"
      using c Cons.prems(2) by (intro Cons.IH) simp_all
    with True rc show ?thesis by simp
  next
    case False
    with rc c show ?thesis by simp
  qed
qed

lemma emit_preserves:
  assumes "P ch" and "\<And>c l. P c \<Longrightarrow> l \<in> set (listeners_of ev ch) \<Longrightarrow> P (snd (call ev a l c))"
      and "P (ch\<lparr>uncaught := uncaught ch @ [a]\<rparr>)"
  shows "P (snd (emit ev a ch))"
  using assms deliver_preserves [of P ch "listeners_of ev ch" ev a]
  by (simp add: emit_def)

text \<open>Calling listeners touches only the listeners, the recorded calls and the stages of
  waiting chains.\<close>

lemma call_frame:
  "closed (snd (call ev a l ch)) = closed ch" "collection (snd (call ev a l ch)) = collection ch"
  "cursor (snd (call ev a l ch)) = cursor ch" "name (snd (call ev a l ch)) = name ch"
  "recreate (snd (call ev a l ch)) = recreate ch" "creating (snd (call ev a l ch)) = creating ch"
  "await_connect (snd (call ev a l ch)) = await_connect ch"
  "user_closes (snd (call ev a l ch)) = user_closes ch"
  "length (listens (snd (call ev a l ch))) = length (listens ch)"
  "length (publishes (snd (call ev a l ch))) = length (publishes ch)"
  by (cases l; simp add: set_lstage_def set_pstage_def Let_def)+

lemma emit_frame:
  "closed (snd (emit ev a ch)) = closed ch"
  "collection (snd (emit ev a ch)) = collection ch"
  "cursor (snd (emit ev a ch)) = cursor ch"
  "name (snd (emit ev a ch)) = name ch"
  "recreate (snd (emit ev a ch)) = recreate ch"
  "creating (snd (emit ev a ch)) = creating ch"
  "await_connect (snd (emit ev a ch)) = await_connect ch"
  "user_closes (snd (emit ev a ch)) = user_closes ch"
  "length (listens (snd (emit ev a ch))) = length (listens ch)"
  "length (publishes (snd (emit ev a ch))) = length (publishes ch)"
proof -
  show "closed (snd (emit ev a ch)) = closed ch"
    by (rule emit_preserves [where P = "\<lambda>c. closed c = closed ch"]) (simp_all add: call_frame)
  show "collection (snd (emit ev a ch)) = collection ch"
    by (rule emit_preserves [where P = "\<lambda>c. collection c = collection ch"])
       (simp_all add: call_frame)
  show "cursor (snd (emit ev a ch)) = cursor ch"
    by (rule emit_preserves [where P = "\<lambda>c. cursor c = cursor ch"]) (simp_all add: call_frame)
  show "name (snd (emit ev a ch)) = name ch"
    by (rule emit_preserves [where P = "\<lambda>c. name c = name ch"]) (simp_all add: call_frame)
  show "recreate (snd (emit ev a ch)) = recreate ch"
    by (rule emit_preserves [where P = "\<lambda>c. recreate c = recreate ch"]) (simp_all add: call_frame)
  show "creating (snd (emit ev a ch)) = creating ch"
    by (rule emit_preserves [where P = "\<lambda>c. creating c = creating ch"]) (simp_all add: call_frame)
  show "await_connect (snd (emit ev a ch)) = await_connect ch"
    by (rule emit_preserves [where P = "\<lambda>c. await_connect c = await_connect ch"])
       (simp_all add: call_frame)
  show "user_closes (snd (emit ev a ch)) = user_closes ch"
    by (rule emit_preserves [where P = "\<lambda>c. user_closes c = user_closes ch"])
       (simp_all add: call_frame)
  show "length (listens (snd (emit ev a ch))) = length (listens ch)"
    by (rule emit_preserves [where P = "\<lambda>c. length (listens c) = length (listens ch)"])
       (simp_all add: call_frame)
  show "length (publishes (snd (emit ev a ch))) = length (publishes ch)"
    by (rule emit_preserves [where P = "\<lambda>c. length (publishes c) = length (publishes ch)"])
       (simp_all add: call_frame)
qed

text \<open>The object the constructor leaves behind, and the state once the collection exists.\<close>

lemma Channel_eq:
  "Channel nm opts e =
     (\<lparr>size = (case opt_size opts of None \<Rightarrow> 1024 * 1024 * 5
               | Some s \<Rightarrow> if s = 0 then 1024 * 1024 * 5 else s),
       recreate = True, closed = True,
       name = (case nm of None \<Rightarrow> ''mubsub'' | Some n \<Rightarrow> if n = [] then ''mubsub'' else n),
       retryInterval = (case opt_retryInterval opts of None \<Rightarrow> 200
                        | Some r \<Rightarrow> if r = 0 then 200 else r),
       collection = None, cursor = None, listeners = [(''collection'', ResolveLatest 0)],
       creating = (if db e then 1 else 0), await_connect = (if db e then 0 else 1),
       listens = [\<lparr>l_arg = None, l_stage = AwaitCollection, l_closed = True, l_fired = False\<rparr>],
       user_closes = 0, publishes = [], calls = [], uncaught = []\<rparr>, e)"
  by (cases "opt_recreate opts")
     (simp_all add: Channel_def listen_def latest_def close_def create_def Let_def)

lemma booted:
  "run [Connect, CreateDone Created] (Channel nm opts e) =
     (\<lparr>size = (case opt_size opts of None \<Rightarrow> 1024 * 1024 * 5
               | Some s \<Rightarrow> if s = 0 then 1024 * 1024 * 5 else s),
       recreate = True, closed = True,
       name = (case nm of None \<Rightarrow> ''mubsub'' | Some n \<Rightarrow> if n = [] then ''mubsub'' else n),
       retryInterval = (case opt_retryInterval opts of None \<Rightarrow> 200
                        | Some r \<Rightarrow> if r = 0 then 200 else r),
       collection =
         Some (case nm of None \<Rightarrow> ''mubsub'' | Some n \<Rightarrow> if n = [] then ''mubsub'' else n),
       cursor = None, listeners = [], creating = 0, await_connect = 0,
       listens = [\<lparr>l_arg = None, l_stage = Queued, l_closed = True, l_fired = False\<rparr>],
       user_closes = 0, publishes = [], calls = [], uncaught = []\<rparr>,
      e\<lparr>db := True,
        logs := (logs e)
          ((case nm of None \<Rightarrow> ''mubsub'' | Some n \<Rightarrow> if n = [] then ''mubsub'' else n) \<mapsto>
           the_log (case nm of None \<Rightarrow> ''mubsub'' | Some n \<Rightarrow> if n = [] then ''mubsub'' else n) e)\<rparr>)"
  by (simp add: run_def Channel_eq create_cb_def emit_def listeners_of_def set_lstage_def
      the_log_def)

subsection \<open>What emit does to the recorded calls\<close>

lemma deliver_calls:
  assumes "\<And>cb. Thrower cb \<notin> set ls"
  shows "fst (deliver ev a ls ch) \<and>
         calls (snd (deliver ev a ls ch)) =
           calls ch @ concat (map (\<lambda>l. case l of User cb \<Rightarrow> [(cb, a)] | _ \<Rightarrow> []) ls)"
  using assms
proof (induction ls arbitrary: ch)
  case Nil
  then show ?case by simp
next
  case (Cons l ls)
  have t: "\<And>cb. Thrower cb \<notin> set ls" using Cons.prems by auto
  show ?case
  proof (cases l)
    case (User cb)
    then show ?thesis using Cons.IH [OF t] by simp
  next
    case (Thrower cb)
    then show ?thesis using Cons.prems [of cb] by simp
  next
    case (ResolveLatest i)
    then show ?thesis using Cons.IH [OF t] by (simp add: Let_def set_lstage_def)
  next
    case (ResolveReady j)
    then show ?thesis using Cons.IH [OF t] by (simp add: Let_def set_pstage_def)
  qed
qed

lemma users_of_listeners:
  "concat (map (\<lambda>l. case l of User cb \<Rightarrow> [(cb, a)] | _ \<Rightarrow> []) (listeners_of ev ch)) =
   map (\<lambda>cb. (cb, a)) (subscribers ev ch)"
proof -
  have "concat (map (\<lambda>l. case l of User cb \<Rightarrow> [(cb, a)] | _ \<Rightarrow> [])
          (map snd (filter (\<lambda>p. fst p = ev) ps))) =
        map (\<lambda>cb. (cb, a))
          (concat (map (\<lambda>p. case snd p of User cb \<Rightarrow> if fst p = ev then [cb] else [] | _ \<Rightarrow> []) ps))"
    for ps :: "(string \<times> listener) list"
    by (induction ps) (auto split: listener.splits)
  then show ?thesis
    unfolding listeners_of_def subscribers_def by blast
qed

lemma subscribers_none:
  "listeners_of ev ch = [] \<Longrightarrow> subscribers ev ch = []"
  using users_of_listeners [of "Msg None" ev ch] by simp

lemma subscribers_listeners:
  "subscribers ev ch \<noteq> [] \<Longrightarrow> listeners_of ev ch \<noteq> []"
  using subscribers_none by blast

lemma throwers_none:
  assumes "throwers ev ch = []"
  shows "Thrower cb \<notin> set (listeners_of ev ch)"
proof
  assume "Thrower cb \<in> set (listeners_of ev ch)"
  then have m: "(ev, Thrower cb) \<in> set (listeners ch)"
    by (auto simp: listeners_of_def)
  have "p \<in> set ps \<Longrightarrow> snd p = Thrower cb \<Longrightarrow> fst p = ev \<Longrightarrow>
        cb \<in> set (concat (map (\<lambda>p. case snd p of Thrower cb \<Rightarrow> if fst p = ev then [cb] else []
                                       | _ \<Rightarrow> []) ps))"
    for p and ps :: "(string \<times> listener) list"
    by (induction ps) auto
  from this [OF m] have "cb \<in> set (throwers ev ch)" by (simp add: throwers_def)
  with assms show False by simp
qed

lemma emit_calls:
  "throwers ev ch = [] \<Longrightarrow>
   calls (snd (emit ev a ch)) = calls ch @ map (\<lambda>cb. (cb, a)) (subscribers ev ch)"
  using deliver_calls [of "listeners_of ev ch" ev a ch] throwers_none [of ev ch]
  by (simp add: emit_def subscribers_none users_of_listeners)

lemma emit_returns:
  "throwers ev ch = [] \<Longrightarrow>
   fst (emit ev a ch) = (ev \<noteq> ''error'' \<or> listeners_of ''error'' ch \<noteq> [])"
  using deliver_calls [of "listeners_of ev ch" ev a ch] throwers_none [of ev ch]
  by (auto simp: emit_def)

text \<open>The internal listeners come and go; the user's stay.\<close>

lemma remove1_internal:
  assumes "\<And>cb. l \<noteq> User cb" "\<And>cb. l \<noteq> Thrower cb"
  shows "concat (map (\<lambda>p. case snd p of User cb \<Rightarrow> if fst p = n then [cb] else [] | _ \<Rightarrow> [])
           (remove1 (ev, l) ps)) =
         concat (map (\<lambda>p. case snd p of User cb \<Rightarrow> if fst p = n then [cb] else [] | _ \<Rightarrow> []) ps)"
    and "concat (map (\<lambda>p. case snd p of Thrower cb \<Rightarrow> if fst p = n then [cb] else [] | _ \<Rightarrow> [])
           (remove1 (ev, l) ps)) =
         concat (map (\<lambda>p. case snd p of Thrower cb \<Rightarrow> if fst p = n then [cb] else [] | _ \<Rightarrow> []) ps)"
  using assms by (induction ps; cases l; auto)+

lemma call_subscribers:
  "subscribers n (snd (call ev a l ch)) = subscribers n ch"
  "throwers n (snd (call ev a l ch)) = throwers n ch"
  by (cases l; simp add: subscribers_def throwers_def Let_def set_lstage_def set_pstage_def
      remove1_internal)+

lemma emit_subscribers:
  "subscribers n (snd (emit ev a ch)) = subscribers n ch"
  "throwers n (snd (emit ev a ch)) = throwers n ch"
proof -
  show "subscribers n (snd (emit ev a ch)) = subscribers n ch"
    by (rule emit_preserves [where P = "\<lambda>c. subscribers n c = subscribers n ch"])
       (simp_all add: call_subscribers, simp add: subscribers_def)
  show "throwers n (snd (emit ev a ch)) = throwers n ch"
    by (rule emit_preserves [where P = "\<lambda>c. throwers n c = throwers n ch"])
       (simp_all add: call_subscribers, simp add: throwers_def)
qed

lemma on_data_routes:
  assumes "\<not> closed ch" "\<not> destroyed e"
      and "\<forall>ev \<in> set (route_events d). throwers ev ch = []"
      and "doc_event d = Some ''error'' \<longrightarrow> subscribers ''error'' ch \<noteq> []"
  shows "calls (on_data (Some d) ch e) = calls ch @ spec_route ch d"
proof (cases "doc_event d")
  case None
  with assms show ?thesis
    by (simp add: on_data_def spec_route_def route_events_def emit_calls)
next
  case (Some ev)
  show ?thesis
  proof (cases "ev = []")
    case True
    with Some assms show ?thesis
      by (simp add: on_data_def spec_route_def route_events_def emit_calls)
  next
    case False
    have t: "throwers ev ch = []" "throwers ''message'' ch = []" "throwers ''document'' ch = []"
      using assms(3) Some False by (simp_all add: route_events_def)
    have "fst (emit ev (Msg (doc_message d)) ch)"
      using assms(4) Some t(1) by (auto simp: emit_returns dest: subscribers_listeners)
    then obtain c where c: "emit ev (Msg (doc_message d)) ch = (True, c)"
      by (cases "emit ev (Msg (doc_message d)) ch") auto
    have c': "c = snd (emit ev (Msg (doc_message d)) ch)" using c by simp
    have tc: "throwers ''message'' c = []" "subscribers n c = subscribers n ch" for n
      by (simp_all add: c' emit_subscribers t)
    have "fst (emit ''message'' (Msg (doc_message d)) c)"
      using tc(1) by (simp add: emit_returns)
    then obtain c2 where c2: "emit ''message'' (Msg (doc_message d)) c = (True, c2)"
      by (cases "emit ''message'' (Msg (doc_message d)) c") auto
    have c2': "c2 = snd (emit ''message'' (Msg (doc_message d)) c)" using c2 by simp
    have tc2: "throwers ''document'' c2 = []" "subscribers n c2 = subscribers n ch" for n
      by (simp_all add: c2' c' emit_subscribers t)
    have 1: "calls c = calls ch @ map (\<lambda>cb. (cb, Msg (doc_message d))) (subscribers ev ch)"
      by (simp add: c' emit_calls t)
    have 2: "calls c2 = calls c @ map (\<lambda>cb. (cb, Msg (doc_message d))) (subscribers ''message'' ch)"
      using tc by (simp add: c2' emit_calls)
    have 3: "calls (snd (emit ''document'' (Document d) c2)) =
               calls c2 @ map (\<lambda>cb. (cb, Document d)) (subscribers ''document'' ch)"
      using tc2 by (simp add: emit_calls)
    have "on_data (Some d) ch e = snd (emit ''document'' (Document d) c2)"
      using assms(1,2) Some False by (simp add: on_data_def c c2)
    then show ?thesis
      using Some False by (simp add: spec_route_def 1 2 3)
  qed
qed

lemma on_data_keeps:
  "closed (on_data x ch e) = closed ch" "subscribers n (on_data x ch e) = subscribers n ch"
  "throwers n (on_data x ch e) = throwers n ch"
proof -
  have k: "closed (snd r) = closed ch \<and> subscribers n (snd r) = subscribers n ch \<and>
           throwers n (snd r) = throwers n ch"
    if "r = (case emit n1 a ch of (False, c) \<Rightarrow> (False, c) | (True, c) \<Rightarrow> emit m b c)"
    for r n1 a m b
  proof -
    obtain t c where rc: "emit n1 a ch = (t, c)" by (cases "emit n1 a ch")
    then have c: "c = snd (emit n1 a ch)" by simp
    have "closed c = closed ch" "subscribers n c = subscribers n ch" "throwers n c = throwers n ch"
      by (simp_all add: c emit_frame emit_subscribers)
    then show ?thesis using that rc by (cases t) (simp_all add: emit_frame emit_subscribers)
  qed
  have "closed (on_data x ch e) = closed ch \<and> subscribers n (on_data x ch e) = subscribers n ch \<and>
        throwers n (on_data x ch e) = throwers n ch"
  proof (cases "closed ch \<or> destroyed e")
    case True
    then show ?thesis by (auto simp: on_data_def)
  next
    case g: False
    show ?thesis
    proof (cases x)
      case None
      with g show ?thesis by (simp add: on_data_def)
    next
      case (Some d)
      show ?thesis
      proof (cases "doc_event d = None \<or> doc_event d = Some []")
        case True
        with g Some show ?thesis
          by (auto simp: on_data_def emit_frame emit_subscribers)
      next
        case False
        then obtain ev where ev: "doc_event d = Some ev" "ev \<noteq> []" by auto
        let ?r = "case emit ev (Msg (doc_message d)) ch of (False, c) \<Rightarrow> (False, c)
                  | (True, c) \<Rightarrow> emit ''message'' (Msg (doc_message d)) c"
        have o: "on_data x ch e =
                   (if fst ?r then snd (emit ''document'' (Document d) (snd ?r)) else snd ?r)"
          using g Some ev by (simp add: on_data_def split_beta)
        from k [of ?r] show ?thesis
          unfolding o by (simp add: emit_frame emit_subscribers)
      qed
    qed
  qed
  then show "closed (on_data x ch e) = closed ch"
    "subscribers n (on_data x ch e) = subscribers n ch"
    "throwers n (on_data x ch e) = throwers n ch" by simp_all
qed

subsection \<open>What emit does to waiting publishes\<close>

lemma publish_eq:
  "publish ev m ch =
     (case collection ch of
        Some c \<Rightarrow> ch\<lparr>publishes := publishes ch @ [\<lparr>p_event = ev, p_message = m, p_stage = PQueued\<rparr>]\<rparr>
      | None \<Rightarrow> ch\<lparr>listeners := listeners ch @ [(''ready'', ResolveReady (length (publishes ch)))],
                   publishes := publishes ch @ [\<lparr>p_event = ev, p_message = m, p_stage = AwaitReady\<rparr>]\<rparr>)"
  by (simp add: publish_def ready_def split: option.splits)

lemma deliver_pstage:
  assumes "\<And>cb. Thrower cb \<notin> set ls" "j < length (publishes ch)"
  shows "p_stage (publishes (snd (deliver ev a ls ch)) ! j) =
     (if ResolveReady j \<in> set ls \<and> p_stage (publishes ch ! j) = AwaitReady then PQueued
      else p_stage (publishes ch ! j))"
  using assms
proof (induction ls arbitrary: ch)
  case Nil
  then show ?case by simp
next
  case (Cons l ls)
  have t: "\<And>cb. Thrower cb \<notin> set ls" using Cons.prems(1) by auto
  show ?case
  proof (cases l)
    case (User cb)
    then show ?thesis using Cons.IH [OF t, of "ch\<lparr>calls := calls ch @ [(cb, a)]\<rparr>"] Cons.prems(2)
      by simp
  next
    case (Thrower cb)
    then show ?thesis using Cons.prems(1) [of cb] by simp
  next
    case (ResolveLatest i)
    let ?c = "snd (call ev a l ch)"
    have "j < length (publishes ?c)" "p_stage (publishes ?c ! j) = p_stage (publishes ch ! j)"
      using Cons.prems(2) ResolveLatest by (simp_all add: Let_def set_lstage_def)
    then show ?thesis using Cons.IH [OF t, of ?c] ResolveLatest by (simp add: Let_def)
  next
    case (ResolveReady k)
    let ?c = "snd (call ev a l ch)"
    have l: "j < length (publishes ?c)"
      using Cons.prems(2) by (simp add: call_frame)
    have s: "p_stage (publishes ?c ! j) =
        (if k = j \<and> p_stage (publishes ch ! j) = AwaitReady then PQueued
         else p_stage (publishes ch ! j))"
      using Cons.prems(2) ResolveReady
      by (auto simp: Let_def set_pstage_def nth_list_update)
    have "deliver ev a (l # ls) ch = deliver ev a ls ?c"
      using ResolveReady by (simp add: Let_def)
    then show ?thesis using Cons.IH [OF t l] s ResolveReady by auto
  qed
qed

lemma ready_resumes_publish:
  assumes "collection ch = None" "throwers ''ready'' ch = []"
  shows "p_stage (publishes (snd (emit ''ready'' a (publish ev m ch))) ! length (publishes ch)) = PQueued"
proof -
  let ?p = "publish ev m ch"
  have l: "length (publishes ch) < length (publishes ?p)"
    using assms by (simp add: publish_eq)
  have r: "ResolveReady (length (publishes ch)) \<in> set (listeners_of ''ready'' ?p)"
    using assms by (simp add: publish_eq listeners_of_def)
  have s: "p_stage (publishes ?p ! length (publishes ch)) = AwaitReady"
    using assms by (simp add: publish_eq)
  have "throwers ''ready'' ?p = []"
    using assms by (simp add: publish_eq throwers_def)
  then have t: "\<And>cb. Thrower cb \<notin> set (listeners_of ''ready'' ?p)"
    by (rule throwers_none)
  have "emit ''ready'' a ?p = deliver ''ready'' a (listeners_of ''ready'' ?p) ?p"
    using r by (auto simp: emit_def)
  then show ?thesis
    using deliver_pstage [OF t l, of "''ready''" a] r s by simp
qed



subsection \<open>Lists of flags\<close>

lemma flags_close_le: "length (filter (\<lambda>b. b) (xs[k := False])) \<le> length (filter (\<lambda>b. b) xs)"
proof (induction xs arbitrary: k)
  case Nil
  then show ?case by simp
next
  case (Cons x xs)
  show ?case
  proof (cases k)
    case 0
    then show ?thesis by simp
  next
    case (Suc n)
    then show ?thesis using Cons.IH [of n] by simp
  qed
qed

lemma flags_no_true: "filter (\<lambda>b. b) xs = [] \<longleftrightarrow> True \<notin> set xs"
  by (induction xs) auto

lemma flags_no_false: "filter Not xs = [] \<longleftrightarrow> False \<notin> set xs"
  by (induction xs) auto

lemma flags_close_last:
  "length (filter (\<lambda>b. b) xs) \<le> 1 \<Longrightarrow> k < length xs \<Longrightarrow> xs ! k \<Longrightarrow> True \<notin> set (xs[k := False])"
proof (induction xs arbitrary: k)
  case Nil
  then show ?case by simp
next
  case (Cons x xs)
  show ?case
  proof (cases k)
    case 0
    with Cons.prems have "filter (\<lambda>b. b) xs = []" by simp
    then have "True \<notin> set xs" by (simp add: flags_no_true)
    with 0 show ?thesis by simp
  next
    case (Suc n)
    with Cons.prems have n: "xs ! n" "n < length xs" by simp_all
    then have "True \<in> set xs" by (metis nth_mem)
    then have ne: "filter (\<lambda>b. b) xs \<noteq> []" by (simp add: flags_no_true)
    have nx: "\<not> x"
    proof
      assume x
      with Cons.prems(1) have "filter (\<lambda>b. b) xs = []" by simp
      with ne show False by simp
    qed
    with Cons.prems(1) have "length (filter (\<lambda>b. b) xs) \<le> 1" by simp
    from Cons.IH [OF this n(2) n(1)] have "True \<notin> set (xs[n := False])" .
    with nx Suc show ?thesis by simp
  qed
qed

lemma flags_close_none: "True \<notin> set xs \<Longrightarrow> True \<notin> set (xs[k := False])"
  using set_update_subset_insert [of xs k False] by auto

lemma flags_fire_last:
  "length (filter Not xs) \<le> 1 \<Longrightarrow> i < length xs \<Longrightarrow> \<not> xs ! i \<Longrightarrow> False \<notin> set (xs[i := True])"
proof (induction xs arbitrary: i)
  case Nil
  then show ?case by simp
next
  case (Cons x xs)
  show ?case
  proof (cases i)
    case 0
    with Cons.prems have "filter Not xs = []" by simp
    then have "False \<notin> set xs" by (simp add: flags_no_false)
    with 0 show ?thesis by simp
  next
    case (Suc n)
    with Cons.prems have n: "\<not> xs ! n" "n < length xs" by simp_all
    then have "False \<in> set xs" by (metis nth_mem)
    then have ne: "filter Not xs \<noteq> []" by (simp add: flags_no_false)
    have nx: "x"
    proof (rule ccontr)
      assume "\<not> x"
      with Cons.prems(1) have "filter Not xs = []" by simp
      with ne show False by simp
    qed
    with Cons.prems(1) have "length (filter Not xs) \<le> 1" by simp
    from Cons.IH [OF this n(2) n(1)] have "False \<notin> set (xs[n := True])" .
    with nx Suc show ?thesis by simp
  qed
qed

lemma map_update_same: "(map f xs)[i := f (xs ! i)] = map f xs"
  by (metis list_update_id map_update)

subsection \<open>The flags after each turn\<close>

lemma fired_set_lstage: "fired (set_lstage i s ch) = fired ch"
  by (simp add: fired_def set_lstage_def map_update map_update_same)

lemma fired_set_pstage: "fired (set_pstage i s ch) = fired ch"
  by (simp add: fired_def set_pstage_def)

lemma fired_call: "fired (snd (call ev a l ch)) = fired ch"
  by (cases l) (simp_all add: Let_def fired_set_lstage fired_set_pstage, simp_all add: fired_def)

lemma fired_emit: "fired (snd (emit ev a ch)) = fired ch"
  by (rule emit_preserves [where P = "\<lambda>c. fired c = fired ch"])
     (simp_all add: fired_call, simp add: fired_def)

lemma fired_reject: "fired (reject i err ch) = fired ch"
  by (simp add: reject_def fired_def set_lstage_def map_update map_update_same)

lemma reject_frame:
  "closed (reject i err ch) = closed ch" "collection (reject i err ch) = collection ch"
  "cursor (reject i err ch) = cursor ch" "recreate (reject i err ch) = recreate ch"
  "listeners (reject i err ch) = listeners ch" "publishes (reject i err ch) = publishes ch"
  "user_closes (reject i err ch) = user_closes ch"
  "length (listens (reject i err ch)) = length (listens ch)"
  by (simp_all add: reject_def set_lstage_def)

lemma set_lstage_frame:
  "closed (set_lstage i s ch) = closed ch" "collection (set_lstage i s ch) = collection ch"
  "cursor (set_lstage i s ch) = cursor ch" "recreate (set_lstage i s ch) = recreate ch"
  "listeners (set_lstage i s ch) = listeners ch" "publishes (set_lstage i s ch) = publishes ch"
  "user_closes (set_lstage i s ch) = user_closes ch"
  "length (listens (set_lstage i s ch)) = length (listens ch)"
  by (simp_all add: set_lstage_def)

lemma set_pstage_frame:
  "closed (set_pstage i s ch) = closed ch" "collection (set_pstage i s ch) = collection ch"
  "cursor (set_pstage i s ch) = cursor ch" "recreate (set_pstage i s ch) = recreate ch"
  "listeners (set_pstage i s ch) = listeners ch" "listens (set_pstage i s ch) = listens ch"
  "user_closes (set_pstage i s ch) = user_closes ch"
  "length (publishes (set_pstage i s ch)) = length (publishes ch)"
  by (simp_all add: set_pstage_def)

text \<open>closed and fired after each turn\<close>

lemma create_flags: "fired (create ch e) = fired ch" "closed (create ch e) = closed ch"
  by (simp_all add: create_def fired_def)

lemma create_cb_flags:
  "fired (fst (create_cb oc ch e)) = fired ch" "closed (fst (create_cb oc ch e)) = closed ch"
  "opens (snd (create_cb oc ch e)) = opens e"
proof -
  show "fired (fst (create_cb oc ch e)) = fired ch"
    by (cases oc) (simp_all add: create_cb_def create_flags fired_emit, simp add: fired_def)
  show "closed (fst (create_cb oc ch e)) = closed ch"
    by (cases oc) (simp_all add: create_cb_def create_flags emit_frame)
  show "opens (snd (create_cb oc ch e)) = opens e"
    by (cases oc) (simp_all add: create_cb_def opens_def)
qed

lemma latest_find_flags:
  "fired (latest_find i ch e) = fired ch" "closed (latest_find i ch e) = closed ch"
  by (simp_all add: latest_find_def fired_set_lstage set_lstage_frame fired_reject reject_frame
      split: option.splits)

lemma latest_doc_flags:
  "fired (latest_doc i ch) = fired ch" "closed (latest_doc i ch) = closed ch"
  by (simp_all add: latest_doc_def fired_set_lstage set_lstage_frame fired_reject reject_frame
      split: option.splits lstage.splits)

lemma latest_inserted_flags:
  "fired (fst (latest_inserted i oc ch e)) = fired ch"
  "closed (fst (latest_inserted i oc ch e)) = closed ch"
  "opens (snd (latest_inserted i oc ch e)) = opens e"
  by (simp_all add: latest_inserted_def fired_set_lstage set_lstage_frame fired_reject
      reject_frame insertOne_def opens_def
      split: option.splits lstage.splits write_outcome.splits)

lemma opens_cursor_close:
  "opens (cursor_close k e) = (opens e)[k := False]"
  by (simp add: cursor_close_def opens_def map_update list_update_beyond)

lemma listen_flags:
  "fired (fst (listen arg ch e)) = fired ch @ [False]"
  "closed (fst (listen arg ch e))"
  "opens (snd (listen arg ch e)) = (case cursor ch of None \<Rightarrow> opens e | Some k \<Rightarrow> (opens e)[k := False])"
  by (simp_all add: listen_def latest_def close_def fired_def opens_cursor_close list_update_append
      Let_def map_update split: option.splits)

lemma on_data_flags:
  "fired (on_data x ch e) = fired ch" "closed (on_data x ch e) = closed ch"
  by (simp_all add: on_data_def split_beta fired_emit emit_frame split: option.splits bool.splits)

lemma publish_flags:
  "fired (publish ev m ch) = fired ch" "closed (publish ev m ch) = closed ch"
  "fired (publish_then j ch) = fired ch" "closed (publish_then j ch) = closed ch"
  "fired (fst (publish_inserted j oc ch e)) = fired ch"
  "closed (fst (publish_inserted j oc ch e)) = closed ch"
  "opens (snd (publish_inserted j oc ch e)) = opens e"
  by (simp_all add: publish_def ready_def publish_then_def publish_inserted_def Let_def
      fired_set_pstage set_pstage_frame insertOne_def opens_def
      split: option.splits pstage.splits write_outcome.splits, simp_all add: fired_def)

lemma close_flags:
  "fired (fst (snd (close ch e))) = fired ch" "closed (fst (snd (close ch e)))"
  "opens (snd (snd (close ch e))) = (case cursor ch of None \<Rightarrow> opens e | Some k \<Rightarrow> (opens e)[k := False])"
  by (simp_all add: close_def Let_def fired_def opens_cursor_close split: option.splits)

lemma close_then_flags:
  "fired (close_then ch) = fired ch" "closed (close_then ch) = closed ch"
  by (simp_all add: close_then_def fired_def)

lemma listen_then_flags:
  "listen_then i ch e = (ch, e) \<or>
   (i < length (fired ch) \<and> \<not> fired ch ! i \<and>
    fired (fst (listen_then i ch e)) = (fired ch)[i := True] \<and>
    (opens (snd (listen_then i ch e)) = opens e \<or>
     opens (snd (listen_then i ch e)) = opens e @ [True]))"
  by (simp add: listen_then_def Let_def fired_emit split: lstage.splits option.splits)
     (simp add: fired_def opens_def map_update)

lemma on_close_flags:
  "(fired (fst (on_close d ch e)) = fired ch \<and> closed (fst (on_close d ch e)) = closed ch \<and>
    opens (snd (on_close d ch e)) = opens e) \<or>
   (\<not> closed ch \<and> fired (fst (on_close d ch e)) = fired ch @ [False] \<and>
    closed (fst (on_close d ch e)) \<and>
    (opens (snd (on_close d ch e)) = opens e \<or>
     (\<exists>k. opens (snd (on_close d ch e)) = (opens e)[k := False])))"
proof -
  obtain r c where rc: "emit ''error'' (Err BrokenCursor) ch = (r, c)"
    by (cases "emit ''error'' (Err BrokenCursor) ch")
  then have c: "c = snd (emit ''error'' (Err BrokenCursor) ch)" by simp
  have fc: "fired c = fired ch" "closed c = closed ch" by (simp_all add: c fired_emit emit_frame)
  show ?thesis
  proof (cases "closed ch \<or> destroyed e \<or> \<not> r \<or> \<not> recreate c")
    case True
    then show ?thesis using fc by (cases r) (auto simp: on_close_def rc)
  next
    case False
    then have "on_close d ch e = listen (Some d) (create c e) e"
      by (cases r) (auto simp: on_close_def rc)
    with False show ?thesis
      by (cases "cursor (create c e)") (auto simp: listen_flags create_flags fc)
  qed
qed

lemma stream_inv_fire: "stream_inv w \<Longrightarrow> stream_inv (fire ev w)"
proof -
  assume inv: "stream_inv w"
  obtain ch e where w: "w = (ch, e)" by (cases w)
  from inv w have I1: "length (filter (\<lambda>b. b) (opens e)) \<le> 1"
    and I2: "length (filter Not (fired ch)) \<le> 1"
    and I3: "False \<in> set (fired ch) \<Longrightarrow> closed ch \<and> True \<notin> set (opens e)"
    by (simp_all add: stream_inv_def)
  show ?thesis
  proof (cases ev)
    case Connect
    then show ?thesis using inv w by (simp add: stream_inv_def fired_def opens_def)
  next
    case Destroy
    then show ?thesis using inv w by (simp add: stream_inv_def fired_def opens_def)
  next
    case (CreateDone oc)
    have "fired (ch\<lparr>creating := creating ch - 1\<rparr>) = fired ch"
      "closed (ch\<lparr>creating := creating ch - 1\<rparr>) = closed ch" by (simp_all add: fired_def)
    then show ?thesis using inv w CreateDone
      by (simp add: stream_inv_def create_cb_flags)
  next
    case (LatestFind i)
    then show ?thesis using inv w by (simp add: stream_inv_def latest_find_flags)
  next
    case (LatestDoc i)
    then show ?thesis using inv w by (simp add: stream_inv_def latest_doc_flags)
  next
    case (LatestInserted i oc)
    then show ?thesis using inv w by (simp add: stream_inv_def latest_inserted_flags)
  next
    case (CloseThen x)
    show ?thesis
    proof (cases x)
      case None
      have "fired (ch\<lparr>user_closes := user_closes ch - 1\<rparr>) = fired ch" by (simp add: fired_def)
      then show ?thesis using inv w CloseThen None
        by (simp add: stream_inv_def close_then_flags)
    next
      case (Some i)
      have "fired (ch\<lparr>listens := (listens ch)[i := (listens ch ! i)\<lparr>l_closed := True\<rparr>]\<rparr>) = fired ch"
        by (simp add: fired_def map_update map_update_same)
      then show ?thesis using inv w CloseThen Some
        by (simp add: stream_inv_def close_then_flags)
    qed
  next
    case (ListenThen i)
    from listen_then_flags [of i ch e] show ?thesis
    proof
      assume "listen_then i ch e = (ch, e)"
      then show ?thesis using inv w ListenThen by simp
    next
      assume a: "i < length (fired ch) \<and> \<not> fired ch ! i \<and>
        fired (fst (listen_then i ch e)) = (fired ch)[i := True] \<and>
        (opens (snd (listen_then i ch e)) = opens e \<or>
         opens (snd (listen_then i ch e)) = opens e @ [True])"
      then have "False \<in> set (fired ch)" by (metis nth_mem)
      with I3 have no: "True \<notin> set (opens e)" by simp
      from a I2 have nf: "False \<notin> set ((fired ch)[i := True])" by (simp add: flags_fire_last)
      from no have no_len: "filter (\<lambda>b. b) (opens e) = []" by (simp add: flags_no_true)
      from nf have nf_len: "filter Not ((fired ch)[i := True]) = []" by (simp add: flags_no_false)
      have "stream_inv (listen_then i ch e)"
        using a no nf no_len nf_len
        by (auto simp: stream_inv_def)
      then show ?thesis using w ListenThen by simp
    qed
  next
    case (Data k)
    have "opens (e\<lparr>cursors := (cursors e)[k := (cursors e ! k)\<lparr>c_sent := Suc (c_sent (cursors e ! k))\<rparr>]\<rparr>) = opens e"
      by (simp add: opens_def map_update map_update_same)
    then show ?thesis using inv w Data
      by (simp add: stream_inv_def on_data_flags split: option.splits)
  next
    case (Broken k)
    show ?thesis
    proof (cases "k < length (cursors e) \<and> c_open (cursors e ! k)")
      case False
      then show ?thesis using inv w Broken by auto
    next
      case True
      let ?e = "cursor_close k e"
      from True have "k < length (opens e)" "opens e ! k" by (simp_all add: opens_def)
      with I1 have no: "True \<notin> set (opens ?e)"
        by (simp add: opens_cursor_close flags_close_last)
      then have no': "True \<notin> set ((opens ?e)[j := False])" for j
        by (rule flags_close_none)
      from no have no_len: "filter (\<lambda>b. b) (opens ?e) = []" by (simp add: flags_no_true)
      from no' have no_len': "filter (\<lambda>b. b) ((opens ?e)[j := False]) = []" for j
        by (simp add: flags_no_true)
      have nf: "\<not> closed ch \<Longrightarrow> filter Not (fired ch) = []"
        using I3 by (auto simp: flags_no_false)
      have "stream_inv (on_close (c_latest (cursors e ! k)) ch ?e)"
        using on_close_flags [of "c_latest (cursors e ! k)" ch ?e] no no' no_len no_len' nf I2 I3
        by (auto simp: stream_inv_def)
      then show ?thesis using w Broken True by simp
    qed
  next
    case (Append c ev' m dm)
    then show ?thesis using inv w by (simp add: stream_inv_def insertOne_def opens_def)
  next
    case (Subscribe ev' cb)
    then show ?thesis using inv w by (simp add: stream_inv_def subscribe_def fired_def)
  next
    case (SubscribeThrower ev' cb)
    then show ?thesis using inv w by (simp add: stream_inv_def subscribe_thrower_def fired_def)
  next
    case (Unsubscribe ev' cb)
    then show ?thesis using inv w by (simp add: stream_inv_def unsubscribe_def fired_def)
  next
    case (Publish ev' m)
    then show ?thesis using inv w by (simp add: stream_inv_def publish_flags)
  next
    case (PublishThen j)
    then show ?thesis using inv w by (simp add: stream_inv_def publish_flags)
  next
    case (PublishInserted j oc)
    then show ?thesis using inv w by (simp add: stream_inv_def publish_flags)
  next
    case Close
    obtain f ch1 e1 where c: "close ch e = (f, ch1, e1)" by (cases "close ch e")
    from close_flags [of ch e] c have fl: "fired ch1 = fired ch" "closed ch1"
      "opens e1 = (case cursor ch of None \<Rightarrow> opens e | Some k \<Rightarrow> (opens e)[k := False])"
      by simp_all
    have le: "length (filter (\<lambda>b. b) (opens e1)) \<le> 1"
      using I1 flags_close_le [of "opens e"] by (auto simp: fl split: option.splits intro: le_trans)
    have no: "True \<notin> set (opens e) \<Longrightarrow> True \<notin> set (opens e1)"
      by (auto simp: fl flags_close_none split: option.splits)
    have "fired (ch1\<lparr>user_closes := Suc (user_closes ch1)\<rparr>) = fired ch1" by (simp add: fired_def)
    then show ?thesis using w Close c fl(1,2) le no I2 I3
      by (cases f) (auto simp: stream_inv_def)
  qed
qed

lemma stream_inv_run: "stream_inv w \<Longrightarrow> stream_inv (run evs w)"
  unfolding run_def by (induction evs arbitrary: w) (simp_all add: stream_inv_fire)

subsection \<open>Fired chains are anchored\<close>

lemma chain_inv_update:
  assumes "chain_inv ch" "listens ch' = (listens ch)[i := t]" "l_fired t \<longrightarrow> anchored (l_stage t)"
  shows "chain_inv ch'"
  using assms set_update_subset_insert [of "listens ch" i t]
  by (auto simp: chain_inv_def)

lemma chain_inv_same: "listens ch' = listens ch \<Longrightarrow> chain_inv ch' = chain_inv ch"
  by (simp add: chain_inv_def)

lemma chain_inv_set_lstage:
  assumes "chain_inv ch" "i < length (listens ch)" "\<not> anchored (l_stage (listens ch ! i))"
  shows "chain_inv (set_lstage i s ch)"
proof -
  from assms have "\<not> l_fired (listens ch ! i)" by (auto simp: chain_inv_def)
  then show ?thesis
    using assms(1) by (rule_tac chain_inv_update [of ch _ i "(listens ch ! i)\<lparr>l_stage := s\<rparr>"])
      (simp_all add: set_lstage_def)
qed

lemma chain_inv_reject:
  assumes "chain_inv ch" "i < length (listens ch)" "\<not> anchored (l_stage (listens ch ! i))"
  shows "chain_inv (reject i err ch)"
proof -
  have "chain_inv (set_lstage i (Failed err) ch)" using assms by (rule chain_inv_set_lstage)
  then show ?thesis by (simp add: reject_def chain_inv_def)
qed

lemma chain_inv_call: "chain_inv ch \<Longrightarrow> chain_inv (snd (call ev a l ch))"
proof (cases l)
  case (ResolveLatest i)
  assume a: "chain_inv ch"
  let ?c = "ch\<lparr>listeners := remove1 (ev, ResolveLatest i) (listeners ch)\<rparr>"
  have c: "chain_inv ?c" using a by (simp add: chain_inv_def)
  have "chain_inv (set_lstage i Queued ?c)"
    if "i < length (listens ?c)" "l_stage (listens ?c ! i) = AwaitCollection"
    using c that by (rule_tac chain_inv_set_lstage) simp_all
  then show ?thesis using ResolveLatest c by (simp add: Let_def)
qed (simp_all add: chain_inv_def Let_def set_pstage_def)

lemma chain_inv_emit: "chain_inv ch \<Longrightarrow> chain_inv (snd (emit ev a ch))"
  by (rule emit_preserves [where P = chain_inv]) (simp_all add: chain_inv_call, simp add: chain_inv_def)

lemma chain_inv_listen: "chain_inv ch \<Longrightarrow> chain_inv (fst (listen arg ch e))"
  by (auto simp: listen_def latest_def close_def Let_def chain_inv_def list_update_append
      split: option.splits)

lemma chain_inv_on_close: "chain_inv ch \<Longrightarrow> chain_inv (fst (on_close d ch e))"
proof -
  assume a: "chain_inv ch"
  obtain r c where rc: "emit ''error'' (Err BrokenCursor) ch = (r, c)"
    by (cases "emit ''error'' (Err BrokenCursor) ch")
  then have c: "c = snd (emit ''error'' (Err BrokenCursor) ch)" by simp
  have "chain_inv c" using a by (simp add: c chain_inv_emit)
  moreover have "chain_inv (create c e)" using \<open>chain_inv c\<close> by (simp add: create_def chain_inv_def)
  ultimately show ?thesis
    using a by (cases r) (simp_all add: on_close_def rc chain_inv_listen)
qed

lemma chain_inv_on_data: "chain_inv ch \<Longrightarrow> chain_inv (on_data x ch e)"
  by (simp add: on_data_def split_beta chain_inv_emit split: option.splits bool.splits)

lemma chain_inv_listen_then: "chain_inv ch \<Longrightarrow> chain_inv (fst (listen_then i ch e))"
proof -
  assume a: "chain_inv ch"
  show ?thesis
  proof (cases "i < length (listens ch) \<and> l_closed (listens ch ! i) \<and> \<not> l_fired (listens ch ! i)")
    case False
    then show ?thesis using a by (auto simp: listen_then_def)
  next
    case en: True
    show ?thesis
    proof (cases "l_stage (listens ch ! i)")
      case (Anchored d)
      let ?obj = "ch\<lparr>closed := False, listens := (listens ch)[i := (listens ch ! i)\<lparr>l_fired := True\<rparr>]\<rparr>"
      have t: "chain_inv ?obj"
        using a Anchored
        by (rule_tac chain_inv_update [of ch _ i "(listens ch ! i)\<lparr>l_fired := True\<rparr>"]) simp_all
      show ?thesis
      proof (cases "collection ch")
        case None
        have "chain_inv (?obj\<lparr>uncaught := uncaught ?obj @ [Err TypeError]\<rparr>)"
          using t by (simp add: chain_inv_def)
        then show ?thesis using en Anchored None by (simp add: listen_then_def)
      next
        case (Some c)
        have "chain_inv (?obj\<lparr>cursor := Some (length (cursors e))\<rparr>)"
          using t by (simp add: chain_inv_def)
        then have "chain_inv (snd (emit ''ready'' (Coll c) (?obj\<lparr>cursor := Some (length (cursors e))\<rparr>)))"
          by (rule chain_inv_emit)
        then show ?thesis using en Anchored Some by (simp add: listen_then_def)
      qed
    qed (use a en in \<open>simp_all add: listen_then_def\<close>)
  qed
qed

lemma chain_inv_fire: "chain_inv (fst w) \<Longrightarrow> chain_inv (fst (fire ev w))"
proof -
  assume inv: "chain_inv (fst w)"
  obtain ch e where w: "w = (ch, e)" by (cases w)
  with inv have a: "chain_inv ch" by simp
  have stage: "chain_inv (set_lstage i s ch)"
    if "i < length (listens ch)" "\<not> anchored (l_stage (listens ch ! i))" for i s
    using a that by (rule chain_inv_set_lstage)
  have rej: "chain_inv (reject i err ch)"
    if "i < length (listens ch)" "\<not> anchored (l_stage (listens ch ! i))" for i err
    using a that by (rule chain_inv_reject)
  show ?thesis
  proof (cases ev)
    case Connect
    then show ?thesis using a w by (simp add: chain_inv_def)
  next
    case Destroy
    then show ?thesis using a w by simp
  next
    case (CreateDone oc)
    let ?c = "ch\<lparr>creating := creating ch - 1\<rparr>"
    have c: "chain_inv ?c" using a by (simp add: chain_inv_def)
    then have "chain_inv (?c\<lparr>collection := Some (name ?c)\<rparr>)" by (simp add: chain_inv_def)
    then have "chain_inv (snd (emit ''collection'' (Coll (name ?c)) (?c\<lparr>collection := Some (name ?c)\<rparr>)))"
      by (rule chain_inv_emit)
    moreover have "chain_inv (snd (emit ''error'' (Err CreateFailed) ?c))"
      using c by (rule chain_inv_emit)
    moreover have "chain_inv (create ?c e)" using c by (simp add: create_def chain_inv_def)
    ultimately have "chain_inv (fst (create_cb oc ?c e))"
      by (cases oc) (simp_all add: create_cb_def)
    then show ?thesis using a w CreateDone by simp
  next
    case (LatestFind i)
    then show ?thesis using a w stage rej by (simp add: latest_find_def split: option.splits)
  next
    case (LatestDoc i)
    then show ?thesis using a w stage rej
      by (simp add: latest_doc_def split: option.splits lstage.splits)
  next
    case (LatestInserted i oc)
    then show ?thesis using a w stage rej
      by (simp add: latest_inserted_def split: option.splits lstage.splits write_outcome.splits)
  next
    case (CloseThen x)
    show ?thesis
    proof (cases x)
      case None
      then show ?thesis using a w CloseThen by (simp add: close_then_def chain_inv_def)
    next
      case (Some i)
      have "chain_inv (ch\<lparr>listens := (listens ch)[i := (listens ch ! i)\<lparr>l_closed := True\<rparr>]\<rparr>)"
        if "i < length (listens ch)"
        using a that
        by (rule_tac chain_inv_update [of ch _ i "(listens ch ! i)\<lparr>l_closed := True\<rparr>"])
           (auto simp: chain_inv_def)
      then show ?thesis using a w CloseThen Some by (simp add: close_then_def chain_inv_def)
    qed
  next
    case (ListenThen i)
    then show ?thesis using a w by (simp add: chain_inv_listen_then)
  next
    case (Data k)
    then show ?thesis using a w by (simp add: chain_inv_on_data split: option.splits)
  next
    case (Broken k)
    then show ?thesis using a w by (simp add: chain_inv_on_close)
  next
    case (Append c ev' m dm)
    then show ?thesis using a w by simp
  next
    case (Subscribe ev' cb)
    then show ?thesis using a w by (simp add: subscribe_def chain_inv_def)
  next
    case (SubscribeThrower ev' cb)
    then show ?thesis using a w by (simp add: subscribe_thrower_def chain_inv_def)
  next
    case (Unsubscribe ev' cb)
    then show ?thesis using a w by (simp add: unsubscribe_def chain_inv_def)
  next
    case (Publish ev' m)
    then show ?thesis using a w
      by (simp add: publish_def ready_def chain_inv_def split: option.splits)
  next
    case (PublishThen j)
    then show ?thesis using a w
      by (simp add: publish_then_def set_pstage_def chain_inv_def split: option.splits)
  next
    case (PublishInserted j oc)
    then show ?thesis using a w
      by (simp add: publish_inserted_def set_pstage_def chain_inv_def Let_def
          split: option.splits pstage.splits write_outcome.splits)
  next
    case Close
    then show ?thesis using a w
      by (simp add: close_def Let_def chain_inv_def split: option.splits)
  qed
qed

lemma chain_inv_run: "chain_inv (fst w) \<Longrightarrow> chain_inv (fst (run evs w))"
  unfolding run_def by (induction evs arbitrary: w) (simp_all add: chain_inv_fire)

lemma open_count: "length (filter c_open (cursors e)) = length (filter (\<lambda>b. b) (opens e))"
  by (simp add: opens_def filter_map comp_def)

subsection \<open>The close handler\<close>

lemma emit_error_returns:
  "subscribers ''error'' ch \<noteq> [] \<Longrightarrow> throwers ''error'' ch = [] \<Longrightarrow> fst (emit ''error'' a ch)"
  using subscribers_listeners [of "''error''" ch] by (simp add: emit_returns)

lemma listen_last:
  "length (listens (fst (listen arg ch e))) = Suc (length (listens ch))"
  "l_arg (last (listens (fst (listen arg ch e)))) = arg"
  "\<not> l_fired (last (listens (fst (listen arg ch e))))"
  "creating (fst (listen arg ch e)) = creating ch"
  "await_connect (fst (listen arg ch e)) = await_connect ch"
  by (simp_all add: listen_def latest_def close_def Let_def list_update_append
      split: option.splits)

text \<open>Both cursor handlers do nothing while the flag is set or the connection is destroyed.\<close>

lemma handlers_guarded:
  "closed ch \<or> destroyed e \<Longrightarrow> on_data x ch e = ch \<and> on_close d ch e = (ch, e)"
  by (simp add: on_data_def on_close_def)

subsection \<open>The anchor lookup\<close>

text \<open>
  The callback taking \<^verbatim>\<open>doc\<close> returns a document it is given, and inserts the dummy
  only when it is given none; but the callback before it never passes a document on,
  whatever the log holds.
\<close>

lemma latest_doc_returns_document:
  "i < length (listens ch) \<Longrightarrow> l_stage (listens ch ! i) = Found (Some d) \<Longrightarrow>
   latest_doc i ch = set_lstage i (Anchored d) ch"
  by (simp add: latest_doc_def)

lemma latest_find_passes_undefined:
  "i < length (listens ch) \<Longrightarrow> l_stage (listens ch ! i) = Queued \<Longrightarrow> collection ch = Some c \<Longrightarrow>
   l_stage (listens (latest_find i ch e) ! i) = Found None"
  by (simp add: latest_find_def set_lstage_def toArray_def)

lemma latest_inserted_outcomes:
  "i < length (listens ch) \<Longrightarrow> l_stage (listens ch ! i) = Inserting c \<Longrightarrow>
   l_stage (listens (fst (latest_inserted i Written ch e)) ! i) =
     Anchored \<lparr>doc_id = length (the_log c e), doc_event = None, doc_message = None,
               doc_dummy = True\<rparr> \<and>
   the_log c (snd (latest_inserted i Written ch e)) =
     the_log c e @ [\<lparr>doc_id = length (the_log c e), doc_event = None, doc_message = None,
                     doc_dummy = True\<rparr>] \<and>
   l_stage (listens (fst (latest_inserted i NotOk ch e)) ! i) = Failed DummyFailed \<and>
   l_stage (listens (fst (latest_inserted i Rejected ch e)) ! i) = Failed WriteFailed"
  by (simp add: latest_inserted_def reject_def set_lstage_def insertOne_def new_doc_def
      the_log_def)

section \<open>Node's order of turns\<close>

lemmas order_defs = allowed_def tick_def enqueued_def due_def start_def

subsection \<open>Runs in Node's order\<close>

lemma rrun_simps [simp]:
  "rrun [] s = s" "rrun (ev # evs) s = rrun evs (tick ev s)"
  by (simp_all add: rrun_def)


lemma rrun_run: "fst (rrun evs s) = run evs (fst s)"
  by (induction evs arbitrary: s) (simp_all add: run_def tick_def)

lemma real_order_invariant:
  assumes "P s" "real_order evs s" "\<And>s ev. P s \<Longrightarrow> allowed ev s \<Longrightarrow> P (tick ev s)"
  shows "P (rrun evs s)"
  using assms(1,2)
proof (induction evs arbitrary: s)
  case Nil
  then show ?case by simp
next
  case (Cons ev evs)
  then show ?case using assms(3) by simp
qed

subsection \<open>What a turn queues\<close>

lemma enqueued_CloseThen:
  assumes "CloseThen x \<in> set (enqueued ch ch')"
  shows "user_closes ch < user_closes ch' \<or> length (listens ch) < length (listens ch')"
  using assms by (auto simp: enqueued_def)

lemma enqueued_LatestDoc:
  assumes "LatestDoc i \<in> set (enqueued ch ch')"
  shows "found (l_stage (listens ch' ! i)) \<and>
         (i < length (listens ch) \<longrightarrow> \<not> found (l_stage (listens ch ! i)))"
  using assms by (auto simp: enqueued_def split: if_splits)

lemma enqueued_LatestDoc_new:
  assumes "i < length (listens ch')" "i < length (listens ch)"
    "found (l_stage (listens ch' ! i))" "\<not> found (l_stage (listens ch ! i))"
  shows "LatestDoc i \<in> set (enqueued ch ch')"
  using assms by (auto simp: enqueued_def)


lemma enqueued_listen:
  assumes "length (listens ch) \<le> i" "i < length (listens ch')"
     "l_stage (listens ch' ! i) = Queued" "\<not> l_closed (listens ch' ! i)"
  shows "LatestFind i \<in> set (enqueued ch ch')" "CloseThen (Some i) \<in> set (enqueued ch ch')"
  using assms by (auto simp: enqueued_def)

subsection \<open>What a turn does to a listen chain\<close>

lemma lclosed_set_lstage: "map l_closed (listens (set_lstage i s ch)) = map l_closed (listens ch)"
  by (simp add: set_lstage_def map_update map_update_same)

lemma call_lclosed: "map l_closed (listens (snd (call ev a l ch))) = map l_closed (listens ch)"
  by (cases l) (simp_all add: Let_def lclosed_set_lstage, simp_all add: set_pstage_def)

lemma emit_lclosed: "map l_closed (listens (snd (emit ev a ch))) = map l_closed (listens ch)"
  by (rule emit_preserves [where P = "\<lambda>c. map l_closed (listens c) = map l_closed (listens ch)"])
     (simp_all add: call_lclosed)

lemma nth_of_map: "map f xs = map f ys \<Longrightarrow> i < length ys \<Longrightarrow> f (xs ! i) = f (ys ! i)"
  by (metis length_map nth_map)

lemma emit_lclosed_nth:
  "i < length (listens ch) \<Longrightarrow> l_closed (listens (snd (emit ev a ch)) ! i) = l_closed (listens ch ! i)"
  using emit_lclosed [of ev a ch] by (rule nth_of_map)

lemma emit_fired_nth:
  "i < length (listens ch) \<Longrightarrow> l_fired (listens (snd (emit ev a ch)) ! i) = l_fired (listens ch ! i)"
  using fired_emit [of ev a ch] unfolding fired_def by (rule nth_of_map)

lemma call_lstage:
  assumes "l_stage (listens ch ! i) \<noteq> AwaitCollection"
  shows "l_stage (listens (snd (call ev a l ch)) ! i) = l_stage (listens ch ! i)"
  using assms by (cases l) (auto simp: Let_def set_lstage_def set_pstage_def nth_list_update)

lemma emit_lstage:
  assumes "l_stage (listens ch ! i) \<noteq> AwaitCollection"
  shows "l_stage (listens (snd (emit ev a ch)) ! i) = l_stage (listens ch ! i)"
  by (rule emit_preserves [where P = "\<lambda>c. l_stage (listens c ! i) = l_stage (listens ch ! i)"])
     (use assms in \<open>simp_all add: call_lstage\<close>)

lemma twice_emit:
  assumes "P ch" "\<And>c ev a. P c \<Longrightarrow> P (snd (emit ev a c))"
  shows "P (snd (case emit n a ch of (False, c) \<Rightarrow> (False, c) | (True, c) \<Rightarrow> emit m b c))"
proof -
  obtain r c where rc: "emit n a ch = (r, c)" by (cases "emit n a ch")
  then have "c = snd (emit n a ch)" by simp
  then have "P c" using assms by simp
  then show ?thesis using rc assms(2) by (cases r) simp_all
qed

lemma on_data_preserves:
  assumes "P ch" "\<And>c ev a. P c \<Longrightarrow> P (snd (emit ev a c))"
  shows "P (on_data x ch e)"
proof (cases "closed ch \<or> destroyed e")
  case True
  then show ?thesis using assms(1) by (auto simp: on_data_def)
next
  case g: False
  show ?thesis
  proof (cases x)
    case None
    with g assms(1) show ?thesis by (simp add: on_data_def)
  next
    case (Some d)
    show ?thesis
    proof (cases "doc_event d = None \<or> doc_event d = Some []")
      case True
      with g Some assms show ?thesis by (auto simp: on_data_def)
    next
      case False
      then obtain ev where ev: "doc_event d = Some ev" "ev \<noteq> []" by auto
      let ?r = "case emit ev (Msg (doc_message d)) ch of (False, c) \<Rightarrow> (False, c)
                | (True, c) \<Rightarrow> emit ''message'' (Msg (doc_message d)) c"
      have o: "on_data x ch e =
                 (if fst ?r then snd (emit ''document'' (Document d) (snd ?r)) else snd ?r)"
        using g Some ev by (simp add: on_data_def split_beta)
      have "P (snd ?r)" using assms by (rule twice_emit)
      then show ?thesis unfolding o using assms(2) by simp
    qed
  qed
qed


lemma listen_eq:
  "fst (listen arg ch e) =
     ch\<lparr>closed := True,
        listens := listens ch @
          [\<lparr>l_arg = arg, l_stage = (if collection ch = None then AwaitCollection else Queued),
            l_closed = (cursor ch = None), l_fired = False\<rparr>],
        listeners := (if collection ch = None
                      then listeners ch @ [(''collection'', ResolveLatest (length (listens ch)))]
                      else listeners ch)\<rparr>"
  "snd (listen arg ch e) = (case cursor ch of None \<Rightarrow> e | Some k \<Rightarrow> cursor_close k e)"
  by (cases "collection ch"; cases "cursor ch";
      simp add: listen_def latest_def close_def Let_def list_update_append)+

text \<open>The close handler either returns after \<^verbatim>\<open>emit\<close>, or goes on to \<^verbatim>\<open>listen\<close>.\<close>

lemma on_close_cases:
  obtains (guarded) "closed ch \<or> destroyed e" "on_close d ch e = (ch, e)"
  | (stopped) "\<not> closed ch" "on_close d ch e = (snd (emit ''error'' (Err BrokenCursor) ch), e)"
  | (recreating) "\<not> closed ch"
      "on_close d ch e =
         listen (Some d) (create (snd (emit ''error'' (Err BrokenCursor) ch)) e) e"
proof (cases "closed ch \<or> destroyed e")
  case True
  then have "on_close d ch e = (ch, e)" by (simp add: on_close_def)
  with True show ?thesis by (rule guarded)
next
  case False
  obtain r c where rc: "emit ''error'' (Err BrokenCursor) ch = (r, c)"
    by (cases "emit ''error'' (Err BrokenCursor) ch")
  then have c: "c = snd (emit ''error'' (Err BrokenCursor) ch)" by simp
  show ?thesis
  proof (cases "r \<and> recreate c")
    case True
    with False rc have "on_close d ch e = listen (Some d) (create c e) e"
      by (simp add: on_close_def)
    with False show ?thesis unfolding c by (intro recreating) simp_all
  next
    case n: False
    with False rc have "on_close d ch e = (c, e)"
      by (cases r) (simp_all add: on_close_def)
    with False show ?thesis unfolding c by (intro stopped) simp_all
  qed
qed

lemma create_frame:
  "listens (create ch e) = listens ch" "collection (create ch e) = collection ch"
  "cursor (create ch e) = cursor ch" "closed (create ch e) = closed ch"
  "user_closes (create ch e) = user_closes ch" "publishes (create ch e) = publishes ch"
  "listeners (create ch e) = listeners ch"
  by (simp_all add: create_def)

lemma fire_length:
  assumes "\<And>k. ev \<noteq> Broken k"
  shows "length (listens (fst (fire ev (ch, e)))) = length (listens ch)"
proof (cases ev)
  case (CreateDone oc)
  then show ?thesis
    by (cases oc) (simp_all add: create_cb_def create_frame emit_frame)
next
  case (ListenThen i)
  then show ?thesis
    by (simp add: listen_then_def Let_def emit_frame split: lstage.splits option.splits)
next
  case (Data k)
  have "length (listens (on_data x ch e)) = length (listens ch)" for x
    by (rule on_data_preserves [where P = "\<lambda>c. length (listens c) = length (listens ch)"])
       (simp_all add: emit_frame)
  with Data show ?thesis by (simp split: option.splits)
next
  case (Broken k)
  then show ?thesis using assms [of k] by simp
next
  case (CloseThen x)
  then show ?thesis by (cases x) (simp_all add: close_then_def)
qed (simp_all add: latest_find_def latest_doc_def latest_inserted_def reject_frame
       set_lstage_frame close_then_def subscribe_def subscribe_thrower_def unsubscribe_def
       publish_eq publish_then_def publish_inserted_def set_pstage_def close_def Let_def
     split: option.splits lstage.splits write_outcome.splits pstage.splits)

lemma fire_lclosed:
  assumes "i < length (listens ch)" "ev \<noteq> CloseThen (Some i)"
  shows "l_closed (listens (fst (fire ev (ch, e))) ! i) = l_closed (listens ch ! i)"
proof (cases ev)
  case (CreateDone oc)
  have "l_closed (listens (fst (create_cb oc c e)) ! i) = l_closed (listens ch ! i)"
    if "l_closed (listens c ! i) = l_closed (listens ch ! i)" "length (listens c) = length (listens ch)"
    for c
    using that assms(1) by (cases oc) (simp_all add: create_cb_def create_frame emit_lclosed_nth)
  then show ?thesis using CreateDone by simp
next
  case (CloseThen x)
  then show ?thesis using assms
    by (cases x) (auto simp: close_then_def nth_list_update)
next
  case (ListenThen j)
  then show ?thesis using assms(1)
    by (simp add: listen_then_def Let_def emit_lclosed_nth nth_list_update
        split: lstage.splits option.splits)
next
  case (Data k)
  have "l_closed (listens (on_data x ch e) ! i) = l_closed (listens ch ! i)" for x
    by (rule on_data_preserves [where P = "\<lambda>c. length (listens c) = length (listens ch) \<and>
          l_closed (listens c ! i) = l_closed (listens ch ! i)", THEN conjunct2])
       (use assms(1) in \<open>simp_all add: emit_frame emit_lclosed_nth\<close>)
  with Data show ?thesis by (simp split: option.splits)
next
  case (Broken k)
  let ?e = "cursor_close k e"
  let ?d = "c_latest (cursors e ! k)"
  have "l_closed (listens (fst (on_close ?d ch ?e)) ! i) = l_closed (listens ch ! i)"
  proof (cases rule: on_close_cases [where ch = ch and e = ?e and d = ?d])
    case guarded
    then show ?thesis by simp
  next
    case stopped
    then show ?thesis using assms(1) by (simp add: emit_lclosed_nth)
  next
    case recreating
    then show ?thesis using assms(1)
      by (simp add: listen_eq create_frame nth_append emit_frame emit_lclosed_nth)
  qed
  with Broken show ?thesis by simp
qed (use assms(1) in \<open>simp_all add: latest_find_def latest_doc_def latest_inserted_def reject_def
       set_lstage_def close_then_def subscribe_def subscribe_thrower_def unsubscribe_def
       publish_eq publish_then_def publish_inserted_def set_pstage_def close_def Let_def
       nth_list_update
     split: option.splits lstage.splits write_outcome.splits pstage.splits\<close>)

lemma fire_fired:
  assumes "i < length (listens ch)" "ev \<noteq> ListenThen i"
  shows "l_fired (listens (fst (fire ev (ch, e))) ! i) = l_fired (listens ch ! i)"
proof (cases ev)
  case (CreateDone oc)
  have "l_fired (listens (fst (create_cb oc c e)) ! i) = l_fired (listens ch ! i)"
    if "l_fired (listens c ! i) = l_fired (listens ch ! i)" "length (listens c) = length (listens ch)"
    for c
    using that assms(1) by (cases oc) (simp_all add: create_cb_def create_frame emit_fired_nth)
  then show ?thesis using CreateDone by simp
next
  case (CloseThen x)
  then show ?thesis using assms
    by (cases x) (auto simp: close_then_def nth_list_update)
next
  case (ListenThen j)
  then show ?thesis using assms
    by (simp add: listen_then_def Let_def emit_fired_nth nth_list_update
        split: lstage.splits option.splits)
next
  case (Data k)
  have "l_fired (listens (on_data x ch e) ! i) = l_fired (listens ch ! i)" for x
    by (rule on_data_preserves [where P = "\<lambda>c. length (listens c) = length (listens ch) \<and>
          l_fired (listens c ! i) = l_fired (listens ch ! i)", THEN conjunct2])
       (use assms(1) in \<open>simp_all add: emit_frame emit_fired_nth\<close>)
  with Data show ?thesis by (simp split: option.splits)
next
  case (Broken k)
  let ?e = "cursor_close k e"
  let ?d = "c_latest (cursors e ! k)"
  have "l_fired (listens (fst (on_close ?d ch ?e)) ! i) = l_fired (listens ch ! i)"
  proof (cases rule: on_close_cases [where ch = ch and e = ?e and d = ?d])
    case guarded
    then show ?thesis by simp
  next
    case stopped
    then show ?thesis using assms(1) by (simp add: emit_fired_nth)
  next
    case recreating
    then show ?thesis using assms(1)
      by (simp add: listen_eq create_frame nth_append emit_frame emit_fired_nth)
  qed
  with Broken show ?thesis by simp
qed (use assms(1) in \<open>simp_all add: latest_find_def latest_doc_def latest_inserted_def reject_def
       set_lstage_def close_then_def subscribe_def subscribe_thrower_def unsubscribe_def
       publish_eq publish_then_def publish_inserted_def set_pstage_def close_def Let_def
       nth_list_update
     split: option.splits lstage.splits write_outcome.splits pstage.splits\<close>)

lemma fire_lstage:
  assumes "i < length (listens ch)" "l_stage (listens ch ! i) \<noteq> AwaitCollection"
    and "ev = LatestFind i \<longrightarrow> l_stage (listens ch ! i) \<noteq> Queued"
    and "ev = LatestDoc i \<longrightarrow> \<not> found (l_stage (listens ch ! i))"
    and "\<And>oc. ev = LatestInserted i oc \<longrightarrow> \<not> inserting (l_stage (listens ch ! i))"
  shows "l_stage (listens (fst (fire ev (ch, e))) ! i) = l_stage (listens ch ! i)"
proof (cases ev)
  case (CreateDone oc)
  have "l_stage (listens (fst (create_cb oc c e)) ! i) = l_stage (listens ch ! i)"
    if "l_stage (listens c ! i) = l_stage (listens ch ! i)" for c
    using that assms(2) by (cases oc) (simp_all add: create_cb_def create_frame emit_lstage)
  then show ?thesis using CreateDone by simp
next
  case (LatestFind j)
  then show ?thesis using assms(1,3)
    by (auto simp: latest_find_def set_lstage_def reject_def nth_list_update split: option.splits)
next
  case (LatestDoc j)
  then show ?thesis using assms(1,4)
    by (auto simp: latest_doc_def set_lstage_def reject_def nth_list_update
        split: option.splits lstage.splits)
next
  case (LatestInserted j oc)
  then show ?thesis using assms(1) assms(5) [of oc]
    by (auto simp: latest_inserted_def set_lstage_def reject_def nth_list_update
        split: option.splits lstage.splits write_outcome.splits)
next
  case (CloseThen x)
  then show ?thesis using assms(1)
    by (cases x) (auto simp: close_then_def nth_list_update)
next
  case (ListenThen j)
  then show ?thesis using assms(1,2)
    by (simp add: listen_then_def Let_def emit_lstage nth_list_update
        split: lstage.splits option.splits)
next
  case (Data k)
  have "l_stage (listens (on_data x ch e) ! i) = l_stage (listens ch ! i)" for x
    by (rule on_data_preserves [where P = "\<lambda>c. l_stage (listens c ! i) = l_stage (listens ch ! i)"])
       (use assms(2) in \<open>simp_all add: emit_lstage\<close>)
  with Data show ?thesis by (simp split: option.splits)
next
  case (Broken k)
  let ?e = "cursor_close k e"
  let ?d = "c_latest (cursors e ! k)"
  have "l_stage (listens (fst (on_close ?d ch ?e)) ! i) = l_stage (listens ch ! i)"
  proof (cases rule: on_close_cases [where ch = ch and e = ?e and d = ?d])
    case guarded
    then show ?thesis by simp
  next
    case stopped
    then show ?thesis using assms(2) by (simp add: emit_lstage)
  next
    case recreating
    then show ?thesis using assms(1,2)
      by (simp add: listen_eq create_frame nth_append emit_frame emit_lstage)
  qed
  with Broken show ?thesis by simp
qed (use assms(1) in \<open>simp_all add: subscribe_def subscribe_thrower_def unsubscribe_def
       publish_eq publish_then_def publish_inserted_def set_pstage_def close_def Let_def
     split: option.splits lstage.splits write_outcome.splits pstage.splits\<close>)

lemma fire_collection:
  assumes "\<And>x. ev \<noteq> CloseThen x" "\<And>oc. ev \<noteq> CreateDone oc"
  shows "collection (fst (fire ev (ch, e))) = collection ch"
proof (cases ev)
  case (CreateDone oc)
  then show ?thesis using assms(2) by simp
next
  case (CloseThen x)
  then show ?thesis using assms(1) by simp
next
  case (ListenThen j)
  then show ?thesis
    by (simp add: listen_then_def Let_def emit_frame split: lstage.splits option.splits)
next
  case (Data k)
  have "collection (on_data x ch e) = collection ch" for x
    by (rule on_data_preserves [where P = "\<lambda>c. collection c = collection ch"])
       (simp_all add: emit_frame)
  with Data show ?thesis by (simp split: option.splits)
next
  case (Broken k)
  let ?e = "cursor_close k e"
  let ?d = "c_latest (cursors e ! k)"
  have "collection (fst (on_close ?d ch ?e)) = collection ch"
    by (cases rule: on_close_cases [where ch = ch and e = ?e and d = ?d])
       (simp_all add: listen_eq create_frame emit_frame)
  with Broken show ?thesis by simp
qed (simp_all add: latest_find_def latest_doc_def latest_inserted_def reject_frame
       set_lstage_frame subscribe_def subscribe_thrower_def unsubscribe_def
       publish_eq publish_then_def publish_inserted_def set_pstage_def close_def Let_def
     split: option.splits lstage.splits write_outcome.splits pstage.splits)

lemma fire_CloseThen:
  "fire (CloseThen x) (ch, e) = (ch, e) \<or>
   collection (fst (fire (CloseThen x) (ch, e))) = None \<and>
   cursor (fst (fire (CloseThen x) (ch, e))) = None \<and>
   closed (fst (fire (CloseThen x) (ch, e))) = closed ch \<and>
   user_closes (fst (fire (CloseThen x) (ch, e))) \<le> user_closes ch \<and>
   snd (fire (CloseThen x) (ch, e)) = e \<and>
   (user_closes ch \<noteq> 0 \<or> (\<exists>i < length (listens ch). \<not> l_closed (listens ch ! i)))"
  by (cases x) (auto simp: close_then_def)

lemma fire_cursor:
  assumes "\<And>x. ev \<noteq> CloseThen x" "\<And>i. ev \<noteq> ListenThen i"
  shows "cursor (fst (fire ev (ch, e))) = cursor ch"
proof (cases ev)
  case (CreateDone oc)
  then show ?thesis by (cases oc) (simp_all add: create_cb_def create_frame emit_frame)
next
  case (CloseThen x)
  then show ?thesis using assms(1) by simp
next
  case (ListenThen j)
  then show ?thesis using assms(2) by simp
next
  case (Data k)
  have "cursor (on_data x ch e) = cursor ch" for x
    by (rule on_data_preserves [where P = "\<lambda>c. cursor c = cursor ch"])
       (simp_all add: emit_frame)
  with Data show ?thesis by (simp split: option.splits)
next
  case (Broken k)
  let ?e = "cursor_close k e"
  let ?d = "c_latest (cursors e ! k)"
  have "cursor (fst (on_close ?d ch ?e)) = cursor ch"
    by (cases rule: on_close_cases [where ch = ch and e = ?e and d = ?d])
       (simp_all add: listen_eq create_frame emit_frame)
  with Broken show ?thesis by simp
qed (simp_all add: latest_find_def latest_doc_def latest_inserted_def reject_frame
       set_lstage_frame subscribe_def subscribe_thrower_def unsubscribe_def
       publish_eq publish_then_def publish_inserted_def set_pstage_def close_def Let_def
     split: option.splits lstage.splits write_outcome.splits pstage.splits)

lemma fire_user_closes:
  assumes "ev = Close \<longrightarrow> cursor ch = None"
  shows "user_closes (fst (fire ev (ch, e))) \<le> user_closes ch"
proof (cases ev)
  case (CreateDone oc)
  then show ?thesis by (cases oc) (simp_all add: create_cb_def create_frame emit_frame)
next
  case (CloseThen x)
  then show ?thesis by (cases x) (simp_all add: close_then_def)
next
  case (ListenThen j)
  then show ?thesis
    by (simp add: listen_then_def Let_def emit_frame split: lstage.splits option.splits)
next
  case (Data k)
  have "user_closes (on_data x ch e) = user_closes ch" for x
    by (rule on_data_preserves [where P = "\<lambda>c. user_closes c = user_closes ch"])
       (simp_all add: emit_frame)
  with Data show ?thesis by (simp split: option.splits)
next
  case (Broken k)
  let ?e = "cursor_close k e"
  let ?d = "c_latest (cursors e ! k)"
  have "user_closes (fst (on_close ?d ch ?e)) = user_closes ch"
    by (cases rule: on_close_cases [where ch = ch and e = ?e and d = ?d])
       (simp_all add: listen_eq create_frame emit_frame)
  with Broken show ?thesis by simp
next
  case Close
  then show ?thesis using assms by (simp add: close_def)
qed (simp_all add: latest_find_def latest_doc_def latest_inserted_def reject_frame
       set_lstage_frame subscribe_def subscribe_thrower_def unsubscribe_def
       publish_eq publish_then_def publish_inserted_def set_pstage_def Let_def
     split: option.splits lstage.splits write_outcome.splits pstage.splits)

lemma fire_cursors:
  assumes "\<And>i. ev \<noteq> ListenThen i"
  shows "length (cursors (snd (fire ev (ch, e)))) = length (cursors e)"
proof (cases ev)
  case (CreateDone oc)
  then show ?thesis by (cases oc) (simp_all add: create_cb_def)
next
  case (ListenThen j)
  then show ?thesis using assms by simp
next
  case (Broken k)
  let ?e = "cursor_close k e"
  let ?d = "c_latest (cursors e ! k)"
  have "length (cursors (snd (on_close ?d ch ?e))) = length (cursors ?e)"
    by (cases rule: on_close_cases [where ch = ch and e = ?e and d = ?d])
       (simp_all add: listen_eq cursor_close_def split: option.splits)
  moreover have "length (cursors ?e) = length (cursors e)" by (simp add: cursor_close_def)
  ultimately show ?thesis using Broken by simp
next
  case (CloseThen x)
  then show ?thesis by (cases x) simp_all
qed (simp_all add: latest_inserted_def insertOne_def publish_inserted_def close_def Let_def
       cursor_close_def
     split: option.splits lstage.splits write_outcome.splits pstage.splits)

lemma fire_closed:
  assumes "closed ch" "\<And>i. ev \<noteq> ListenThen i"
  shows "closed (fst (fire ev (ch, e)))"
proof (cases ev)
  case (CreateDone oc)
  then show ?thesis using assms(1)
    by (cases oc) (simp_all add: create_cb_def create_frame emit_frame)
next
  case (CloseThen x)
  then show ?thesis using assms(1) by (cases x) (simp_all add: close_then_def)
next
  case (ListenThen j)
  then show ?thesis using assms(2) by simp
qed (use assms(1) in \<open>simp_all add: latest_find_def latest_doc_def latest_inserted_def
       reject_frame set_lstage_frame subscribe_def subscribe_thrower_def unsubscribe_def
       publish_eq publish_then_def publish_inserted_def set_pstage_def close_def Let_def
       on_data_def on_close_def
     split: option.splits lstage.splits write_outcome.splits pstage.splits\<close>)

lemma fire_length_le: "length (listens ch) \<le> length (listens (fst (fire ev (ch, e))))"
proof (cases "\<exists>k. ev = Broken k")
  case False
  then show ?thesis using fire_length [of ev ch e] by simp
next
  case True
  then obtain k where k: "ev = Broken k" by blast
  let ?e = "cursor_close k e"
  let ?d = "c_latest (cursors e ! k)"
  have "length (listens ch) \<le> length (listens (fst (on_close ?d ch ?e)))"
    by (cases rule: on_close_cases [where ch = ch and e = ?e and d = ?d])
       (simp_all add: listen_eq create_frame emit_frame)
  with k show ?thesis by simp
qed

lemma enqueued_same: "enqueued ch ch = []"
  by (simp add: enqueued_def)

subsection \<open>The queue\<close>

lemma allowed_queued: "allowed ev s \<Longrightarrow> queued ev \<Longrightarrow> snd s \<noteq> [] \<and> hd (snd s) = ev"
  by (cases "snd s") (simp_all add: allowed_def)

lemma allowed_io: "allowed ev s \<Longrightarrow> io ev \<Longrightarrow> snd s = []"
  by (cases ev) (simp_all add: allowed_def)

lemma queue_keeps:
  assumes "x \<in> set q" "queued ev \<longrightarrow> q \<noteq> [] \<and> hd q = ev" "x \<noteq> ev"
  shows "x \<in> set ((if queued ev then tl q else q) @ enq)"
  using assms by (cases q) auto

lemma queue_keeps_out:
  assumes "x \<notin> set q" "x \<notin> set enq"
  shows "x \<notin> set ((if queued ev then tl q else q) @ enq)"
  using assms by (cases q) auto

lemma queue_keeps_before:
  assumes "x \<in> set (takeWhile (\<lambda>z. z \<noteq> y) q)" "y \<in> set q"
    and "queued ev \<longrightarrow> q \<noteq> [] \<and> hd q = ev" "x \<noteq> ev" "y \<noteq> ev"
  shows "x \<in> set (takeWhile (\<lambda>z. z \<noteq> y) ((if queued ev then tl q else q) @ enq))"
proof (cases "queued ev")
  case False
  then show ?thesis using assms(1,2) by (simp add: takeWhile_append1)
next
  case True
  with assms(3) obtain r where q: "q = ev # r" by (cases q) auto
  with assms(2,5) have "y \<in> set r" by auto
  then have "takeWhile (\<lambda>z. z \<noteq> y) (r @ enq) = takeWhile (\<lambda>z. z \<noteq> y) r"
    by (simp add: takeWhile_append1)
  then show ?thesis using True q assms(1,4,5) by auto
qed

subsection \<open>Every recovery is rejected\<close>

lemma doomed_step:
  assumes d: "doomed i ch q" and i: "i < length (listens ch)"
    and al: "allowed ev ((ch, e), q)" and nio: "\<not> io ev" and nl: "\<And>j. ev \<noteq> ListenThen j"
  shows "doomed i (fst (fire ev (ch, e))) (snd (tick ev ((ch, e), q)))"
proof -
  let ?ch = "fst (fire ev (ch, e))"
  let ?enq = "enqueued ch ?ch"
  let ?q = "(if queued ev then tl q else q) @ ?enq"
  have q': "snd (tick ev ((ch, e), q)) = ?q" by (simp add: tick_def)
  have hd: "queued ev \<longrightarrow> q \<noteq> [] \<and> hd q = ev" using allowed_queued [OF al] by simp
  have len: "length (listens ?ch) = length (listens ch)"
    using nio by (intro fire_length) auto
  have lc: "l_closed (listens ?ch ! i) = l_closed (listens ch ! i)" if "ev \<noteq> CloseThen (Some i)"
    using i that by (rule fire_lclosed)
  have col: "collection ?ch = collection ch \<or> collection ?ch = None"
  proof (cases "\<exists>x. ev = CloseThen x")
    case True
    then obtain x where "ev = CloseThen x" by blast
    then show ?thesis using fire_CloseThen [of x ch e] by auto
  next
    case False
    then have "collection ?ch = collection ch" using nio by (intro fire_collection) auto
    then show ?thesis by simp
  qed
  have col_close: "collection ?ch = None" if "\<not> l_closed (listens ch ! i)" "ev = CloseThen (Some i)"
    using that i by (simp add: close_then_def)
  show ?thesis
  proof (cases "l_stage (listens ch ! i)")
    case (Failed err)
    have "l_stage (listens ?ch ! i) = Failed err"
      using fire_lstage [OF i, of ev e] Failed by simp
    then show ?thesis by (simp add: doomed_def)
  next
    case Queued
    from d Queued have f: "LatestFind i \<in> set q" and nd: "LatestDoc i \<notin> set q"
      and rel: "collection ch = None \<or> \<not> l_closed (listens ch ! i) \<and> CloseThen (Some i) \<in> set q"
      by (simp_all add: doomed_def)
    show ?thesis
    proof (cases "ev = LatestFind i")
      case True
      show ?thesis
      proof (cases "collection ch")
        case None
        then have "l_stage (listens ?ch ! i) = Failed TypeError"
          using True i Queued by (simp add: latest_find_def reject_def set_lstage_def)
        then show ?thesis by (simp add: doomed_def)
      next
        case (Some c)
        have st: "l_stage (listens ?ch ! i) = Found None"
          using True i Queued Some by (simp add: latest_find_def set_lstage_def toArray_def)
        have "LatestDoc i \<in> set ?enq"
          by (rule enqueued_LatestDoc_new) (use i len st Queued in simp_all)
        then have 1: "LatestDoc i \<in> set ?q" by simp
        from rel Some have r: "\<not> l_closed (listens ch ! i)" "CloseThen (Some i) \<in> set q"
          by simp_all
        from hd True obtain r' where qq: "q = LatestFind i # r'" by (cases q) auto
        with r(2) nd have c: "CloseThen (Some i) \<in> set r'" and n: "LatestDoc i \<notin> set r'"
          by auto
        have "takeWhile (\<lambda>x. x \<noteq> LatestDoc i) (r' @ ?enq) =
              r' @ takeWhile (\<lambda>x. x \<noteq> LatestDoc i) ?enq"
          by (rule takeWhile_append2) (use n in auto)
        with c have "CloseThen (Some i) \<in> set (takeWhile (\<lambda>x. x \<noteq> LatestDoc i) (r' @ ?enq))"
          by simp
        then have 2: "CloseThen (Some i) \<in> set (takeWhile (\<lambda>x. x \<noteq> LatestDoc i) ?q)"
          using True qq by simp
        have 3: "\<not> l_closed (listens ?ch ! i)" using lc True r(1) by simp
        show ?thesis unfolding q' using st 1 2 3 by (simp add: doomed_def)
      qed
    next
      case False
      have st: "l_stage (listens ?ch ! i) = Queued"
        using fire_lstage [OF i, of ev e] Queued False by simp
      have 1: "LatestFind i \<in> set ?q"
        by (rule queue_keeps [OF f hd]) (use False in simp)
      have "LatestDoc i \<notin> set ?enq" using enqueued_LatestDoc [of i ch ?ch] st by auto
      with nd have 2: "LatestDoc i \<notin> set ?q" by (rule queue_keeps_out)
      have 3: "collection ?ch = None \<or>
               \<not> l_closed (listens ?ch ! i) \<and> CloseThen (Some i) \<in> set ?q"
      proof (cases "collection ch = None")
        case True
        with col show ?thesis by auto
      next
        case n: False
        with rel have r: "\<not> l_closed (listens ch ! i)" "CloseThen (Some i) \<in> set q" by simp_all
        show ?thesis
        proof (cases "ev = CloseThen (Some i)")
          case True
          then show ?thesis using col_close r(1) by simp
        next
          case c: False
          have "CloseThen (Some i) \<in> set ?q"
            by (rule queue_keeps [OF r(2) hd]) (use c in simp)
          then show ?thesis using lc [OF c] r(1) by simp
        qed
      qed
      show ?thesis unfolding q' using st 1 2 3 by (simp add: doomed_def)
    qed
  next
    case (Found x)
    with d have x: "x = None" by (cases x) (simp_all add: doomed_def)
    from d Found x have f: "LatestDoc i \<in> set q"
      and rel: "collection ch = None \<or> \<not> l_closed (listens ch ! i) \<and>
                CloseThen (Some i) \<in> set (takeWhile (\<lambda>x. x \<noteq> LatestDoc i) q)"
      by (simp_all add: doomed_def)
    show ?thesis
    proof (cases "ev = LatestDoc i")
      case True
      with hd obtain r' where "q = LatestDoc i # r'" by (cases q) auto
      with rel have "collection ch = None" by simp
      then have "l_stage (listens ?ch ! i) = Failed TypeError"
        using True i Found x by (simp add: latest_doc_def reject_def set_lstage_def)
      then show ?thesis by (simp add: doomed_def)
    next
      case False
      have st: "l_stage (listens ?ch ! i) = Found None"
        using fire_lstage [OF i, of ev e] Found x False by simp
      have 1: "LatestDoc i \<in> set ?q"
        by (rule queue_keeps [OF f hd]) (use False in simp)
      have 3: "collection ?ch = None \<or> \<not> l_closed (listens ?ch ! i) \<and>
               CloseThen (Some i) \<in> set (takeWhile (\<lambda>x. x \<noteq> LatestDoc i) ?q)"
      proof (cases "collection ch = None")
        case True
        with col show ?thesis by auto
      next
        case n: False
        with rel have r: "\<not> l_closed (listens ch ! i)"
          "CloseThen (Some i) \<in> set (takeWhile (\<lambda>x. x \<noteq> LatestDoc i) q)" by simp_all
        show ?thesis
        proof (cases "ev = CloseThen (Some i)")
          case True
          then show ?thesis using col_close r(1) by simp
        next
          case c: False
          have "CloseThen (Some i) \<in> set (takeWhile (\<lambda>x. x \<noteq> LatestDoc i) ?q)"
            by (rule queue_keeps_before [OF r(2) f hd]) (use c False in simp_all)
          then show ?thesis using lc [OF c] r(1) by simp
        qed
      qed
      show ?thesis unfolding q' using st 1 3 by (simp add: doomed_def)
    qed
  qed (use d in \<open>simp_all add: doomed_def\<close>)
qed

lemma doomed_idle:
  assumes "doomed i ch []" "i < length (listens ch)"
  shows "doomed i (fst (fire ev (ch, e))) q'"
proof -
  from assms(1) obtain err where "l_stage (listens ch ! i) = Failed err"
    by (cases "l_stage (listens ch ! i)") (auto simp: doomed_def split: option.splits)
  then have "l_stage (listens (fst (fire ev (ch, e))) ! i) = Failed err"
    using fire_lstage [OF assms(2), of ev e] by simp
  then show ?thesis by (simp add: doomed_def)
qed

lemma fire_new_chain:
  assumes "length (listens (fst (fire ev (ch, e)))) \<noteq> length (listens ch)"
  shows "closed (fst (fire ev (ch, e))) \<and> \<not> closed ch \<and>
         length (listens (fst (fire ev (ch, e)))) = Suc (length (listens ch)) \<and>
         l_stage (listens (fst (fire ev (ch, e))) ! length (listens ch)) =
           (if collection ch = None then AwaitCollection else Queued) \<and>
         l_closed (listens (fst (fire ev (ch, e))) ! length (listens ch)) = (cursor ch = None)"
proof -
  from assms fire_length [of ev ch e] obtain k where k: "ev = Broken k" by blast
  let ?e = "cursor_close k e"
  let ?d = "c_latest (cursors e ! k)"
  from assms k have f: "fire ev (ch, e) = on_close ?d ch ?e"
    by (cases "k < length (cursors e) \<and> c_open (cursors e ! k)") auto
  show ?thesis
  proof (cases rule: on_close_cases [where ch = ch and e = ?e and d = ?d])
    case guarded
    with assms f show ?thesis by simp
  next
    case stopped
    with assms f show ?thesis by (simp add: emit_frame)
  next
    case recreating
    then show ?thesis unfolding f
      by (simp add: listen_eq create_frame emit_frame nth_append)
  qed
qed

lemma fire_collection_create:
  "collection ch \<noteq> None \<Longrightarrow> collection (fst (fire (CreateDone oc) (ch, e))) \<noteq> None"
  by (cases oc) (simp_all add: create_cb_def create_frame emit_frame)

lemma doomed_not_due:
  assumes "doomed i ch q"
  shows "\<not> anchored (l_stage (listens ch ! i))"
  using assms by (cases "l_stage (listens ch ! i)") (auto simp: doomed_def)

lemma tailed_ListenThen:
  assumes "tailed ((ch, e), q)"
  shows "fire (ListenThen i) (ch, e) = (ch, e)"
proof (cases "i < length (listens ch) \<and> l_closed (listens ch ! i) \<and> \<not> l_fired (listens ch ! i)")
  case False
  then show ?thesis by (auto simp: listen_then_def)
next
  case True
  with assms have "0 < i" by (cases i) (auto simp: tailed_def)
  with assms True have "doomed i ch q" by (simp add: tailed_def)
  then have "\<not> anchored (l_stage (listens ch ! i))" by (rule doomed_not_due)
  then show ?thesis by (cases "l_stage (listens ch ! i)") (simp_all add: listen_then_def)
qed

lemma tailed_tick:
  assumes t: "tailed s" and al: "allowed ev s"
  shows "tailed (tick ev s)"
proof -
  obtain ch e q where s: "s = ((ch, e), q)" by (metis surj_pair)
  show ?thesis
  proof (cases "\<exists>i. ev = ListenThen i")
    case True
    then obtain i where "ev = ListenThen i" by blast
    then have "tick ev s = s"
      using tailed_ListenThen [OF t [unfolded s], of i]
      by (simp add: tick_def s enqueued_same)
    with t show ?thesis by simp
  next
    case nl: False
    let ?ch = "fst (fire ev (ch, e))"
    let ?e = "snd (fire ev (ch, e))"
    let ?q = "snd (tick ev s)"
    have tk: "fst (fst (tick ev s)) = ?ch" "snd (fst (tick ev s)) = ?e"
      by (simp_all add: tick_def s)
    from t s have ne: "listens ch \<noteq> []" and f0: "l_fired (listens ch ! 0)"
      and cl: "closed ch \<or> cursor ch \<noteq> None \<and> collection ch \<noteq> None \<and> user_closes ch = 0 \<and>
               (\<forall>t \<in> set (listens ch). l_closed t)"
      and cs: "length (cursors e) = 1"
      and dm: "\<And>i. 0 < i \<Longrightarrow> i < length (listens ch) \<Longrightarrow> doomed i ch q"
      by (simp_all add: tailed_def)
    have 1: "listens ?ch \<noteq> []" using ne fire_length_le [of ch ev e] by auto
    have 2: "l_fired (listens ?ch ! 0)"
      using fire_fired [of 0 ch ev e] ne f0 nl by simp
    have 4: "length (cursors ?e) = 1"
      using fire_cursors [of ev ch e] nl cs by simp
    have 3: "closed ?ch \<or> cursor ?ch \<noteq> None \<and> collection ?ch \<noteq> None \<and> user_closes ?ch = 0 \<and>
             (\<forall>t \<in> set (listens ?ch). l_closed t)"
    proof (cases "closed ch")
      case True
      then have "closed ?ch" using nl by (intro fire_closed) auto
      then show ?thesis by simp
    next
      case False
      with cl have cu: "cursor ch \<noteq> None" and co: "collection ch \<noteq> None"
        and uc: "user_closes ch = 0" and lcl: "\<And>i. i < length (listens ch) \<Longrightarrow> l_closed (listens ch ! i)"
        by auto
      show ?thesis
      proof (cases "ev = Close \<or> (\<exists>x. ev = CloseThen x) \<or> length (listens ?ch) \<noteq> length (listens ch)")
        case True
        then consider (a) "ev = Close" | (b) x where "ev = CloseThen x"
          | (c) "length (listens ?ch) \<noteq> length (listens ch)" by blast
        then show ?thesis
        proof cases
          case a
          then show ?thesis by (simp add: close_def Let_def split: option.splits)
        next
          case b
          from fire_CloseThen [of x ch e] uc lcl have "fire (CloseThen x) (ch, e) = (ch, e)"
            by auto
          with b cl show ?thesis by simp
        next
          case c
          then show ?thesis using fire_new_chain [of ev ch e] by simp
        qed
      next
        case o: False
        then have len: "length (listens ?ch) = length (listens ch)" by simp
        have a: "cursor ?ch = cursor ch" using o nl by (intro fire_cursor) auto
        have b: "collection ?ch \<noteq> None"
        proof (cases "\<exists>oc. ev = CreateDone oc")
          case True
          then show ?thesis using co fire_collection_create [of ch _ e] by auto
        next
          case False
          then have "collection ?ch = collection ch" using o by (intro fire_collection) auto
          with co show ?thesis by simp
        qed
        have c: "user_closes ?ch = 0" using fire_user_closes [of ev ch e] o uc by simp
        have "l_closed (listens ?ch ! i)" if "i < length (listens ?ch)" for i
          using fire_lclosed [of i ch ev e] that len lcl o by auto
        then have d: "\<forall>t \<in> set (listens ?ch). l_closed t"
          by (simp add: all_set_conv_all_nth)
        show ?thesis using a b c d cu by simp
      qed
    qed
    have 5: "doomed i ?ch ?q" if i: "0 < i" "i < length (listens ?ch)" for i
    proof (cases "i < length (listens ch)")
      case old: True
      show ?thesis
      proof (cases "io ev")
        case True
        with al s have "q = []" using allowed_io [of ev s] by simp
        with dm [OF i(1) old] show ?thesis using old by (intro doomed_idle) simp_all
      next
        case False
        have "doomed i ?ch (snd (tick ev ((ch, e), q)))"
          using dm [OF i(1) old] old al [unfolded s] False nl
          by (intro doomed_step) auto
        then show ?thesis by (simp add: s)
      qed
    next
      case new: False
      then have g: "length (listens ?ch) \<noteq> length (listens ch)" using i by simp
      from fire_new_chain [OF g] have n: "\<not> closed ch" "length (listens ?ch) = Suc (length (listens ch))"
        "l_stage (listens ?ch ! length (listens ch)) =
           (if collection ch = None then AwaitCollection else Queued)"
        "l_closed (listens ?ch ! length (listens ch)) = (cursor ch = None)" by simp_all
      from n(2) new i have ii: "i = length (listens ch)" by simp
      from n(1) cl have "cursor ch \<noteq> None" "collection ch \<noteq> None" by simp_all
      with n(3,4) ii have st: "l_stage (listens ?ch ! i) = Queued" "\<not> l_closed (listens ?ch ! i)"
        by simp_all
      have e1: "LatestFind i \<in> set (enqueued ch ?ch)" "CloseThen (Some i) \<in> set (enqueued ch ?ch)"
        using ii i(2) st by (auto intro: enqueued_listen)
      have e2: "LatestDoc i \<notin> set (enqueued ch ?ch)"
        using enqueued_LatestDoc [of i ch ?ch] st by auto
      from fire_length [of ev ch e] g obtain k where "ev = Broken k" by blast
      then have "io ev" by simp
      with al s have "q = []" using allowed_io [of ev s] by simp
      then have "?q = enqueued ch ?ch" by (simp add: tick_def s)
      then show ?thesis using st e1 e2 by (simp add: doomed_def)
    qed
    show ?thesis using 1 2 3 4 5 by (simp add: tailed_def tk)
  qed
qed

subsection \<open>Before the first stream\<close>

lemma call_early:
  assumes "early (l_stage (listens ch ! i))"
  shows "early (l_stage (listens (snd (call ev a l ch)) ! i))"
  using assms by (cases l) (auto simp: Let_def set_lstage_def set_pstage_def nth_list_update)

lemma emit_early:
  assumes "early (l_stage (listens ch ! i))"
  shows "early (l_stage (listens (snd (emit ev a ch)) ! i))"
  by (rule emit_preserves [where P = "\<lambda>c. early (l_stage (listens c ! i))"])
     (use assms in \<open>simp_all add: call_early\<close>)

lemma fire_early:
  assumes "i < length (listens ch)" "early (l_stage (listens ch ! i))" "collection ch = None"
  shows "early (l_stage (listens (fst (fire ev (ch, e))) ! i)) \<or>
         collection (fst (fire ev (ch, e))) \<noteq> None"
proof (cases ev)
  case (CreateDone oc)
  have "early (l_stage (listens (fst (create_cb oc c e)) ! i)) \<or>
        collection (fst (create_cb oc c e)) \<noteq> None"
    if "early (l_stage (listens c ! i))" for c
    using that by (cases oc) (simp_all add: create_cb_def create_frame emit_frame emit_early)
  then show ?thesis using CreateDone assms(2) by simp
next
  case (LatestFind j)
  then show ?thesis using assms
    by (auto simp: latest_find_def set_lstage_def reject_def nth_list_update)
next
  case (LatestDoc j)
  then show ?thesis using assms
    by (cases "j = i")
       (auto simp: latest_doc_def set_lstage_def reject_def nth_list_update
          split: lstage.splits option.splits)
next
  case (LatestInserted j oc)
  then show ?thesis using assms
    by (cases "j = i")
       (auto simp: latest_inserted_def set_lstage_def reject_def nth_list_update
          split: lstage.splits option.splits write_outcome.splits)
next
  case (CloseThen x)
  then show ?thesis using assms by (cases x) (auto simp: close_then_def nth_list_update)
next
  case (ListenThen j)
  then show ?thesis using assms
    by (auto simp: listen_then_def Let_def nth_list_update split: lstage.splits)
next
  case (Data k)
  have "early (l_stage (listens (on_data x ch e) ! i))" for x
    by (rule on_data_preserves [where P = "\<lambda>c. early (l_stage (listens c ! i))"])
       (use assms(2) in \<open>simp_all add: emit_early\<close>)
  with Data assms(2) show ?thesis by (simp split: option.splits)
next
  case (Broken k)
  let ?e = "cursor_close k e"
  let ?d = "c_latest (cursors e ! k)"
  have "early (l_stage (listens (fst (on_close ?d ch ?e)) ! i))"
  proof (cases rule: on_close_cases [where ch = ch and e = ?e and d = ?d])
    case guarded
    then show ?thesis using assms(2) by simp
  next
    case stopped
    then show ?thesis using assms(2) by (simp add: emit_early)
  next
    case recreating
    then show ?thesis using assms(1,2)
      by (simp add: listen_eq create_frame nth_append emit_frame emit_early)
  qed
  with Broken assms(2) show ?thesis by simp
qed (use assms in \<open>simp_all add: subscribe_def subscribe_thrower_def unsubscribe_def
       publish_eq publish_then_def publish_inserted_def set_pstage_def close_def Let_def
     split: option.splits lstage.splits write_outcome.splits pstage.splits\<close>)

lemma starting_tick:
  assumes t: "starting s" and al: "allowed ev s"
  shows "starting (tick ev s) \<or> tailed (tick ev s)"
proof -
  obtain ch e q where s: "s = ((ch, e), q)" by (metis surj_pair)
  let ?ch = "fst (fire ev (ch, e))"
  let ?e = "snd (fire ev (ch, e))"
  let ?q = "snd (tick ev s)"
  have tk: "fst (fst (tick ev s)) = ?ch" "snd (fst (tick ev s)) = ?e"
    by (simp_all add: tick_def s)
  from t s have len: "length (listens ch) = 1" and f0: "\<not> l_fired (listens ch ! 0)"
    and c0: "l_closed (listens ch ! 0)" and cu: "cursor ch = None" and uc: "user_closes ch = 0"
    and ea: "collection ch = None \<Longrightarrow> early (l_stage (listens ch ! 0))"
    and cs: "cursors e = []" and nq: "\<And>x. CloseThen x \<notin> set q"
    by (simp_all add: starting_def)
  have nc: "ev \<noteq> CloseThen x" for x
  proof
    assume c: "ev = CloseThen x"
    then have "queued ev" by simp
    from allowed_queued [OF al this] s have "q \<noteq> []" "hd q = CloseThen x" using c by simp_all
    then have "CloseThen x \<in> set q" by (metis hd_in_set)
    with nq show False by simp
  qed
  show ?thesis
  proof (cases "\<exists>i. ev = ListenThen i")
    case True
    then obtain i where ev: "ev = ListenThen i" by blast
    show ?thesis
    proof (cases "i = 0 \<and> anchored (l_stage (listens ch ! 0))")
      case False
      then have "fire ev (ch, e) = (ch, e)"
        using ev len by (cases "l_stage (listens ch ! 0)") (auto simp: listen_then_def)
      then have "tick ev s = s" using ev by (simp add: tick_def s enqueued_same)
      with t show ?thesis by simp
    next
      case True
      then obtain d where d: "l_stage (listens ch ! 0) = Anchored d"
        by (cases "l_stage (listens ch ! 0)") simp_all
      with ea obtain c where c: "collection ch = Some c" by (cases "collection ch") auto
      let ?this = "ch\<lparr>closed := False,
                      listens := (listens ch)[0 := (listens ch ! 0)\<lparr>l_fired := True\<rparr>],
                      cursor := Some (length (cursors e))\<rparr>"
      have f: "fire ev (ch, e) =
                 (snd (emit ''ready'' (Coll c) ?this),
                  e\<lparr>cursors := cursors e @
                       [\<lparr>c_coll = c, c_latest = d, c_sent = 0, c_open = True\<rparr>]\<rparr>)"
        using ev True len f0 c0 d c by (simp add: listen_then_def)
      have l: "length (listens ?ch) = 1" using len by (simp add: f emit_frame)
      have 1: "l_fired (listens ?ch ! 0)" using len by (simp add: f emit_fired_nth)
      have "l_closed (listens ?ch ! 0)" using len c0 by (simp add: f emit_lclosed_nth)
      with l have 2: "\<forall>t \<in> set (listens ?ch). l_closed t"
        by (simp add: all_set_conv_all_nth)
      have 3: "cursor ?ch \<noteq> None" "collection ?ch \<noteq> None" "user_closes ?ch = 0"
        using c uc by (simp_all add: f emit_frame)
      have 4: "length (cursors ?e) = 1" using cs by (simp add: f)
      have "tailed (tick ev s)" using l 1 2 3 4 by (auto simp: tailed_def tk)
      then show ?thesis by simp
    qed
  next
    case nl: False
    have nb: "fire ev (ch, e) = (ch, e)" if "ev = Broken k" for k
      using that cs by simp
    have l: "length (listens ?ch) = 1"
    proof (cases "\<exists>k. ev = Broken k")
      case True
      then show ?thesis using nb len by auto
    next
      case False
      then show ?thesis using fire_length [of ev ch e] len by simp
    qed
    have 1: "\<not> l_fired (listens ?ch ! 0)"
      using fire_fired [of 0 ch ev e] len f0 nl by simp
    have 2: "l_closed (listens ?ch ! 0)"
      using fire_lclosed [of 0 ch ev e] len c0 nc by simp
    have 3: "cursor ?ch = None" using fire_cursor [of ev ch e] nl nc cu by simp
    have 4: "user_closes ?ch = 0" using fire_user_closes [of ev ch e] cu uc by simp
    have 5: "early (l_stage (listens ?ch ! 0))" if n: "collection ?ch = None"
    proof (cases "collection ch")
      case None
      then show ?thesis using fire_early [of 0 ch ev e] ea len n by simp
    next
      case (Some c)
      have "\<exists>oc. ev = CreateDone oc"
      proof (rule ccontr)
        assume "\<not> ?thesis"
        then have "collection ?ch = collection ch" using nc by (intro fire_collection) auto
        with Some n show False by simp
      qed
      then obtain oc where oc: "ev = CreateDone oc" by blast
      from Some have "collection (fst (fire (CreateDone oc) (ch, e))) \<noteq> None"
        by (intro fire_collection_create) simp
      with n oc show ?thesis by simp
    qed
    have 6: "cursors ?e = []" using fire_cursors [of ev ch e] nl cs by simp
    have "CloseThen x \<notin> set (enqueued ch ?ch)" for x
      using enqueued_CloseThen [of x ch ?ch] 4 uc l len by auto
    then have 7: "CloseThen x \<notin> set ?q" for x
      using nq [of x] by (cases q) (auto simp: tick_def s)
    have "starting (tick ev s)" using l 1 2 3 4 5 6 7 by (simp add: starting_def tk)
    then show ?thesis by simp
  qed
qed

lemma sound_tick: "sound s \<Longrightarrow> allowed ev s \<Longrightarrow> sound (tick ev s)"
  using starting_tick [of s ev] tailed_tick [of s ev] by (auto simp: sound_def)

lemma sound_start: "cursors e = [] \<Longrightarrow> sound (start nm opts e)"
  by (simp add: sound_def starting_def start_def Channel_eq)

lemma sound_rrun:
  assumes "cursors e = []" "real_order evs (start nm opts e)"
  shows "sound (rrun evs (start nm opts e))"
  using sound_start [OF assms(1)] assms(2) by (rule real_order_invariant) (rule sound_tick)

lemma one_stream_ever:
  assumes "cursors e = []" "real_order evs (start nm opts e)"
  shows "length (cursors (snd (run evs (Channel nm opts e)))) \<le> 1"
proof -
  have "sound (rrun evs (start nm opts e))" using assms by (rule sound_rrun)
  moreover have "fst (rrun evs (start nm opts e)) = run evs (Channel nm opts e)"
    by (simp add: rrun_run start_def)
  ultimately show ?thesis by (auto simp: sound_def starting_def tailed_def)
qed

subsection \<open>A publish and the collection\<close>












subsection \<open>A publish whose callback is queued\<close>









subsection \<open>The scenarios are in Node's order\<close>

text \<open>
  The start-up, the start-up with an early \<^verbatim>\<open>close()\<close> followed by a delivery or by a
  broken stream, and the beginning of a recovery are orders Node takes.
\<close>

lemma scenarios_in_real_order:
  "real_order startup (start None opts0 env0)"
  "real_order startup (start None opts0 env1)"
  "real_order (early_close @ startup @ [Append ''mubsub'' (Some ''foo'') (Some ''x'') False, Data 0])
     (start None opts0 env0)"
  "real_order (early_close @ startup @ [Broken 0]) (start None opts0 env0)"
  "real_order (startup @ [Subscribe (Some ''error'') 9, Broken 1, LatestFind 1])
     (start None opts0 env_used)"
  by (simp_all add: startup_def early_close_def Channel_eq env0_def env1_def env_used_def
      opts0_def entry_def dummy_at_def order_defs turn_defs)

section \<open>The claims\<close>

subsection \<open>C1: routing of delivered entries\<close>

text \<open>
  C1 as stated fails in three ways, each on a tailing channel with a wildcard subscriber
  and a raw-document observer, in turns taken in Node's order.  An entry whose event name
  is \<^verbatim>\<open>error\<close>, when no 'error' listener is registered: \<^verbatim>\<open>emit('error', ...)\<close>
  throws, the handler ends, and neither the wildcard subscriber nor the raw-document
  observer is called.  An entry named \<^verbatim>\<open>foo\<close>, when the subscriber of \<^verbatim>\<open>foo\<close>
  throws: the handler ends there, with the same effect.  An entry whose event name is the
  empty string: \<^verbatim>\<open>if (doc.event)\<close> is false, and neither the subscriber of that name
  nor the wildcard subscriber is called.  Moreover an entry delivered after the connection
  was destroyed is dropped.
\<close>

theorem entries_not_routed:
  "real_order (wild @ [Data 0]) (start None opts0 env0) \<and>
   \<not> closed (fst wild_world) \<and> \<not> destroyed (snd wild_world) \<and>
   next_doc 0 (snd wild_world) = Some (entry 1 ''error'' ''x'') \<and>
   subscribers ''message'' (fst wild_world) = [1] \<and>
   subscribers ''document'' (fst wild_world) = [2] \<and>
   calls (fst (fire (Data 0) wild_world)) = [] \<and>
   real_order (throwing @ [Data 0]) (start None opts0 env0) \<and>
   \<not> closed (fst thrower_world) \<and> \<not> destroyed (snd thrower_world) \<and>
   next_doc 0 (snd thrower_world) = Some (entry 1 ''foo'' ''a'') \<and>
   throwers ''foo'' (fst thrower_world) = [1] \<and>
   subscribers ''message'' (fst thrower_world) = [2] \<and>
   subscribers ''document'' (fst thrower_world) = [3] \<and>
   calls (fst (fire (Data 0) thrower_world)) = [(1, Msg (Some ''a''))] \<and>
   real_order (unnamed @ [Data 0]) (start None opts0 env0) \<and>
   \<not> closed (fst unnamed_world) \<and> \<not> destroyed (snd unnamed_world) \<and>
   next_doc 0 (snd unnamed_world) = Some (entry 1 [] ''a'') \<and>
   subscribers [] (fst unnamed_world) = [1] \<and>
   subscribers ''message'' (fst unnamed_world) = [2] \<and>
   subscribers ''document'' (fst unnamed_world) = [3] \<and>
   calls (fst (fire (Data 0) unnamed_world)) = [(3, Document (entry 1 [] ''a''))] \<and>
   \<not> closed (fst (run [Append ''mubsub'' (Some ''foo'') (Some ''a'') False, Destroy] tailing_world)) \<and>
   next_doc 0 (snd (run [Append ''mubsub'' (Some ''foo'') (Some ''a'') False, Destroy] tailing_world))
     = Some (entry 1 ''foo'' ''a'') \<and>
   subscribers ''foo'' (fst tailing_world) = [1] \<and>
   calls (fst (run [Append ''mubsub'' (Some ''foo'') (Some ''a'') False, Destroy, Data 0]
      tailing_world)) = []"
  by (simp add: wild_world_def wild_def thrower_world_def throwing_def unnamed_world_def
      unnamed_def tailing_world_def
      run_def startup_def Channel_eq env0_def opts0_def entry_def subscribers_def
      throwers_def allowed_def tick_def enqueued_def due_def start_def turn_defs)

text \<open>
  C1, amended.  On a channel that is not closed and whose connection is not destroyed,
  the entries the stream delivers are routed one after the other, in the order delivered:
  an entry with a non-empty event name goes to the subscribers of that name, then to the
  wildcard subscribers, then to the raw-document observers; an entry without an event
  name, or with the empty one, goes to the raw-document observers only.  This holds
  provided none of the callbacks an entry is routed to throws, and an entry named
  \<^verbatim>\<open>error\<close> is delivered only while an 'error' subscriber is registered.
\<close>

theorem data_routed_in_order:
  assumes "\<not> closed ch" "\<not> destroyed e"
      and "\<forall>d \<in> set ds. \<forall>ev \<in> set (route_events d). throwers ev ch = []"
      and "\<forall>d \<in> set ds. doc_event d = Some ''error'' \<longrightarrow> subscribers ''error'' ch \<noteq> []"
  shows "calls (foldl (\<lambda>c d. on_data (Some d) c e) ch ds) =
           calls ch @ concat (map (spec_route ch) ds)"
  using assms
proof (induction ds arbitrary: ch)
  case Nil
  then show ?case by simp
next
  case (Cons d ds)
  let ?c = "on_data (Some d) ch e"
  have r: "spec_route ?c = spec_route ch"
    by (rule ext) (simp add: spec_route_def on_data_keeps split: option.splits)
  have "calls (foldl (\<lambda>c d. on_data (Some d) c e) ?c ds) = calls ?c @ concat (map (spec_route ?c) ds)"
    using Cons.prems by (intro Cons.IH) (simp_all add: on_data_keeps)
  moreover have "calls ?c = calls ch @ spec_route ch d"
    using Cons.prems by (intro on_data_routes) simp_all
  ultimately show ?case by (simp add: r)
qed

theorem data_routed_in_order_witness:
  "\<not> closed (fst tailing_world) \<and> \<not> destroyed (snd tailing_world) \<and>
   subscribers ''error'' (fst tailing_world) = [4] \<and>
   throwers ''bar'' (subscribe_thrower (Some ''bar'') 5 (fst tailing_world)) = [5] \<and>
   calls (foldl (\<lambda>c d. on_data (Some d) c (snd tailing_world))
            (subscribe_thrower (Some ''bar'') 5 (fst tailing_world))
            [entry 1 ''foo'' ''a'', dummy_at 2, entry 3 ''error'' ''x'']) =
     [(1, Msg (Some ''a'')), (2, Msg (Some ''a'')), (3, Document (entry 1 ''foo'' ''a'')),
      (3, Document (dummy_at 2)),
      (4, Msg (Some ''x'')), (2, Msg (Some ''x'')), (3, Document (entry 3 ''error'' ''x''))]"
  using data_routed_in_order
    [of "subscribe_thrower (Some ''bar'') 5 (fst tailing_world)" "snd tailing_world"
        "[entry 1 ''foo'' ''a'', dummy_at 2, entry 3 ''error'' ''x'']"]
  by (simp add: tailing_world_def run_def startup_def Channel_eq env0_def opts0_def entry_def
      dummy_at_def subscribers_def throwers_def route_events_def spec_route_def turn_defs)

subsection \<open>C2: the anchor of a non-empty log\<close>

text \<open>
  C2.  On a log that already holds the entry \<^verbatim>\<open>foo\<close> at position 0, the start-up
  ends with a dummy written at position 1 and taken as the anchor: the query result is
  read as property \<^verbatim>\<open>0\<close> of the Promise \<^verbatim>\<open>toArray()\<close> returns, which is
  \<^verbatim>\<open>undefined\<close>, so the branch that inserts the dummy is always taken.
\<close>

theorem latest_inserts_dummy_on_nonempty_log:
  "l_stage (listens (fst (run startup (Channel None opts0 env1))) ! 0) = Anchored (dummy_at 1) \<and>
   the_log ''mubsub'' (snd (run startup (Channel None opts0 env1))) =
     [entry 0 ''foo'' ''a'', dummy_at 1]"
  by (simp add: run_def startup_def Channel_eq env1_def env0_def opts0_def dummy_at_def
      entry_def turn_defs)

subsection \<open>C3: the recreate option\<close>

text \<open>
  C3.  The constructor reads the option as
  \<^verbatim>\<open>options.recreate ? options.recreate : true\<close>, so \<^verbatim>\<open>recreate: false\<close> yields
  \<open>True\<close>; with that option, on a channel with an 'error' listener, when the stream
  breaks the close handler issues \<^verbatim>\<open>createCollection\<close> again and starts a second
  \<^verbatim>\<open>listen\<close>.  And with the default options tailing does not resume.  The stream
  delivers \<^verbatim>\<open>a\<close> and breaks; in Node's order of turns the callback of the
  \<^verbatim>\<open>close\<close> inside \<^verbatim>\<open>listen\<close> releases the collection before the second
  callback of \<^verbatim>\<open>latest\<close> reads it, so that \<^verbatim>\<open>listen\<close> is rejected with a
  TypeError nobody handles: the channel is left closed with no open cursor, and the entry
  \<^verbatim>\<open>b\<close> published meanwhile is never delivered.
\<close>

theorem recreate_option_ignored_and_recovery_dies:
  "recreate (fst (Channel nm (opts\<lparr>opt_recreate := Some False\<rparr>) e)) = True \<and>
   real_order (startup @ [Subscribe (Some ''error'') 9, Broken 0])
      (start None opts_norecreate env0) \<and>
   map l_arg (listens (fst (run (startup @ [Subscribe (Some ''error'') 9, Broken 0])
      (Channel None opts_norecreate env0)))) = [None, Some (dummy_at 0)] \<and>
   creating (fst (run (startup @ [Subscribe (Some ''error'') 9, Broken 0])
      (Channel None opts_norecreate env0))) = 1 \<and>
   real_order (delivering @ [Broken 0] @ recovery) (start None opts0 env0) \<and>
   recreate (fst (run (delivering @ [Broken 0] @ recovery) (Channel None opts0 env0))) \<and>
   map l_stage (listens (fst (run (delivering @ [Broken 0] @ recovery) (Channel None opts0 env0))))
     = [Anchored (dummy_at 0), Failed TypeError] \<and>
   uncaught (fst (run (delivering @ [Broken 0] @ recovery) (Channel None opts0 env0)))
     = [Err TypeError] \<and>
   closed (fst (run (delivering @ [Broken 0] @ recovery) (Channel None opts0 env0))) \<and>
   map c_open (cursors (snd (run (delivering @ [Broken 0] @ recovery) (Channel None opts0 env0))))
     = [False] \<and>
   the_log ''mubsub'' (snd (run (delivering @ [Broken 0] @ recovery) (Channel None opts0 env0)))
     = [dummy_at 0, entry 1 ''foo'' ''a'', entry 2 ''foo'' ''b''] \<and>
   calls (fst (run (delivering @ [Broken 0] @ recovery) (Channel None opts0 env0)))
     = [(1, Msg (Some ''a'')), (9, Err BrokenCursor)]"
  by (simp add: Channel_eq)
     (simp add: run_def delivering_def recovery_def startup_def Channel_eq env0_def opts0_def
      opts_norecreate_def dummy_at_def entry_def allowed_def tick_def enqueued_def due_def
      start_def turn_defs)

subsection \<open>C4: the anchor of a recovery\<close>

text \<open>
  C4 as stated fails.  The stream opened after the dummy at position 0 delivers \<^verbatim>\<open>a\<close>
  (position 1) and breaks.  The recovery is given the dummy at position 0, not position 1,
  as the document to look up.  Then \<^verbatim>\<open>b\<close> is published at position 2 and the
  recovery runs on, in Node's order of turns: it is rejected, no stream is opened, and
  \<^verbatim>\<open>b\<close> is never delivered.  Moreover, with \<open>recreate\<close> set, no provisioning is
  re-run at all when the 'error' listener throws, when there is no 'error' listener, or
  when the connection has been destroyed: no \<^verbatim>\<open>createCollection\<close> is issued and no
  \<^verbatim>\<open>listen\<close> is started.
\<close>

theorem recovery_anchor_is_not_last_processed:
  "real_order (delivering @ [Broken 0] @ recovery) (start None opts0 env0) \<and>
   c_sent (cursors (snd delivered_world) ! 0) = 1 \<and>
   l_arg (listens (fst broken_world) ! 1) = Some (dummy_at 0) \<and>
   calls (fst broken_world) = [(1, Msg (Some ''a'')), (9, Err BrokenCursor)] \<and>
   the_log ''mubsub'' (snd recovered_world) =
     [dummy_at 0, entry 1 ''foo'' ''a'', entry 2 ''foo'' ''b''] \<and>
   l_stage (listens (fst recovered_world) ! 1) = Failed TypeError \<and>
   map c_open (cursors (snd recovered_world)) = [False] \<and>
   calls (fst recovered_world) = [(1, Msg (Some ''a'')), (9, Err BrokenCursor)] \<and>
   real_order break_thrower (start None opts0 env0) \<and>
   recreate (fst (run break_thrower (Channel None opts0 env0))) \<and>
   map l_fired (listens (fst (run break_thrower (Channel None opts0 env0)))) = [True] \<and>
   creating (fst (run break_thrower (Channel None opts0 env0))) = 0 \<and>
   uncaught (fst (run break_thrower (Channel None opts0 env0))) = [Err (CallbackError 9)] \<and>
   real_order break_unheard (start None opts0 env0) \<and>
   map l_fired (listens (fst (run break_unheard (Channel None opts0 env0)))) = [True] \<and>
   creating (fst (run break_unheard (Channel None opts0 env0))) = 0 \<and>
   uncaught (fst (run break_unheard (Channel None opts0 env0))) = [Err BrokenCursor] \<and>
   real_order break_destroyed (start None opts0 env0) \<and>
   map l_fired (listens (fst (run break_destroyed (Channel None opts0 env0)))) = [True] \<and>
   creating (fst (run break_destroyed (Channel None opts0 env0))) = 0"
  by (simp add: recovered_world_def broken_world_def delivered_world_def delivering_def
      recovery_def break_thrower_def break_unheard_def break_destroyed_def run_def startup_def
      Channel_eq env0_def opts0_def dummy_at_def entry_def
      allowed_def tick_def enqueued_def due_def start_def turn_defs)

text \<open>
  C4, amended.  When an open stream breaks on a channel that is not closed, whose
  connection is not destroyed, that has an 'error' subscriber, none of whose 'error'
  subscribers throws, and that has \<open>recreate\<close> set, the close handler re-runs
  provisioning: one more \<^verbatim>\<open>create\<close> is issued and one more \<^verbatim>\<open>listen\<close> chain is
  started, and the document that chain is given to look up is the anchor the broken stream
  was opened after, whatever the stream has delivered since.
\<close>

theorem recovery_passes_broken_stream_anchor:
  assumes "k < length (cursors e)" "c_open (cursors e ! k)"
      and "\<not> closed ch" "\<not> destroyed e" "subscribers ''error'' ch \<noteq> []"
      and "throwers ''error'' ch = []" "recreate ch"
  shows "length (listens (fst (fire (Broken k) (ch, e)))) = Suc (length (listens ch)) \<and>
         l_arg (last (listens (fst (fire (Broken k) (ch, e))))) = Some (c_latest (cursors e ! k)) \<and>
         \<not> l_fired (last (listens (fst (fire (Broken k) (ch, e))))) \<and>
         creating (fst (fire (Broken k) (ch, e))) + await_connect (fst (fire (Broken k) (ch, e))) =
           Suc (creating ch + await_connect ch)"
proof -
  let ?e = "cursor_close k e"
  let ?c = "snd (emit ''error'' (Err BrokenCursor) ch)"
  have d: "destroyed ?e = destroyed e" by (simp add: cursor_close_def)
  obtain r c where rc: "emit ''error'' (Err BrokenCursor) ch = (r, c)"
    by (cases "emit ''error'' (Err BrokenCursor) ch")
  with emit_error_returns [OF assms(5,6), of "Err BrokenCursor"]
  have c: "emit ''error'' (Err BrokenCursor) ch = (True, c)" "c = ?c" by simp_all
  have "recreate c" using assms(7) by (simp add: c(2) emit_frame)
  then have "fire (Broken k) (ch, e) = listen (Some (c_latest (cursors e ! k))) (create c ?e) ?e"
    using assms(1-4) d by (simp add: on_close_def c(1))
  then have f: "fire (Broken k) (ch, e) = listen (Some (c_latest (cursors e ! k))) (create ?c ?e) ?e"
    by (simp only: c(2))
  have l: "length (listens (create ?c ?e)) = length (listens ch)"
    by (simp add: create_def emit_frame)
  have n: "creating (create ?c ?e) + await_connect (create ?c ?e) =
      Suc (creating ch + await_connect ch)"
    by (simp add: create_def emit_frame)
  show ?thesis
    unfolding f by (simp only: listen_last l n simp_thms)
qed

theorem recovery_passes_broken_stream_anchor_witness:
  "c_open (cursors (snd delivered_world) ! 0) \<and> c_sent (cursors (snd delivered_world) ! 0) = 1 \<and>
   \<not> closed (fst delivered_world) \<and> subscribers ''error'' (fst delivered_world) = [9] \<and>
   throwers ''error'' (fst delivered_world) = [] \<and>
   l_arg (last (listens (fst (fire (Broken 0) delivered_world)))) = Some (dummy_at 0)"
  using recovery_passes_broken_stream_anchor [of 0 "snd delivered_world" "fst delivered_world"]
  by (simp add: delivered_world_def delivering_def run_def startup_def Channel_eq env0_def
      opts0_def dummy_at_def subscribers_def throwers_def turn_defs)

subsection \<open>C5: one stream at a time\<close>

text \<open>
  C5.  Start a channel on a connection that has no open cursor, and let anything happen
  in any order.  Then at most one cursor is open; and as long as some \<^verbatim>\<open>listen\<close>
  chain has not obtained its anchor yet, or has it but has not opened its stream yet, no
  cursor is open at all.  So every anchor is looked up, and every stream opened, after the
  streams before it have closed.
\<close>

theorem one_stream_at_a_time:
  assumes "\<forall>c \<in> set (cursors e0). \<not> c_open c"
  shows "length (filter c_open (cursors (snd (run evs (Channel nm opts e0))))) \<le> 1 \<and>
         (\<forall>t \<in> set (listens (fst (run evs (Channel nm opts e0)))).
            \<not> anchored (l_stage t) \<or> \<not> l_fired t \<longrightarrow>
            (\<forall>c \<in> set (cursors (snd (run evs (Channel nm opts e0)))). \<not> c_open c))"
proof -
  let ?w = "run evs (Channel nm opts e0)"
  from assms have no: "True \<notin> set (opens e0)" by (auto simp: opens_def)
  then have "filter (\<lambda>b. b) (opens e0) = []" by (simp add: flags_no_true)
  with no have "stream_inv (Channel nm opts e0)"
    by (simp add: stream_inv_def Channel_eq fired_def)
  then have s: "stream_inv ?w" by (rule stream_inv_run)
  have "chain_inv (fst (Channel nm opts e0))"
    by (simp add: chain_inv_def Channel_eq)
  then have c: "chain_inv (fst ?w)" by (rule chain_inv_run)
  have "\<forall>c \<in> set (cursors (snd ?w)). \<not> c_open c"
    if t: "t \<in> set (listens (fst ?w))" "\<not> anchored (l_stage t) \<or> \<not> l_fired t" for t
  proof -
    from t c have "\<not> l_fired t" by (auto simp: chain_inv_def)
    with t(1) have "False \<in> set (fired (fst ?w))" by (force simp: fired_def)
    with s have "True \<notin> set (opens (snd ?w))" by (simp add: stream_inv_def)
    then show ?thesis by (auto simp: opens_def)
  qed
  moreover from s have "length (filter c_open (cursors (snd ?w))) \<le> 1"
    by (simp add: stream_inv_def open_count)
  ultimately show ?thesis by blast
qed


theorem one_stream_at_a_time_witness:
  "map c_open (cursors env_used) = [False] \<and>
   l_stage (listens (fst recovering_world) ! 1) = Found None \<and>
   map c_open (cursors (snd recovering_world)) = [False, False] \<and>
   length (filter c_open (cursors (snd recovering_world))) \<le> 1"
  using one_stream_at_a_time
    [of env_used "startup @ [Subscribe (Some ''error'') 9, Broken 1, LatestFind 1]" None opts0]
  by (simp add: recovering_world_def run_def startup_def Channel_eq env_used_def env0_def
      opts0_def dummy_at_def turn_defs)

subsection \<open>C6: what publish waits for\<close>

text \<open>
  C6 as stated fails, in turns taken in Node's order.  Between the creation of the
  collection and the first 'ready': \<^verbatim>\<open>ready()\<close> tests \<^verbatim>\<open>this.collection\<close>, so a
  publish issued while the first \<^verbatim>\<open>listen\<close> is still pending (no anchor yet, no
  stream opened, 'ready' never emitted) is appended and resolved without waiting.  On a
  channel that has completed its provisioning, when the user calls \<^verbatim>\<open>close()\<close> and
  \<^verbatim>\<open>publish\<close> in the same turn: the callback of the close releases the collection
  before the callback of the publish reads it, and the publish is rejected with a
  TypeError; nothing is appended.  When the publish is issued after the callback of the
  close has run, it suspends on 'ready', though provisioning has completed once.  And a
  publish suspended on 'ready' behind a 'ready' listener of the user's that throws is not
  resumed by the 'ready' the first \<^verbatim>\<open>listen\<close> emits.
\<close>

theorem publish_does_not_wait_for_provisioning:
  "real_order early_publish (start None opts0 env0) \<and>
   map l_stage (listens (fst early_publish_world)) = [Inserting ''mubsub''] \<and>
   map l_fired (listens (fst early_publish_world)) = [False] \<and>
   cursor (fst early_publish_world) = None \<and>
   cursors (snd early_publish_world) = [] \<and>
   p_stage (publishes (fst early_publish_world) ! 0) = PResolved (entry 0 ''foo'' ''x'') \<and>
   the_log ''mubsub'' (snd early_publish_world) = [entry 0 ''foo'' ''x''] \<and>
   real_order publish_in_close (start None opts0 env0) \<and>
   map l_fired (listens (fst (run publish_in_close (Channel None opts0 env0)))) = [True] \<and>
   p_stage (publishes (fst (run publish_in_close (Channel None opts0 env0))) ! 0) =
     PRejected TypeError \<and>
   the_log ''mubsub'' (snd (run publish_in_close (Channel None opts0 env0))) = [dummy_at 0] \<and>
   real_order publish_after_close (start None opts0 env0) \<and>
   p_stage (publishes (fst (run publish_after_close (Channel None opts0 env0))) ! 0) = AwaitReady \<and>
   real_order publish_behind_thrower (start None opts0 env0) \<and>
   map l_fired (listens (fst (run publish_behind_thrower (Channel None opts0 env0)))) = [True] \<and>
   calls (fst (run publish_behind_thrower (Channel None opts0 env0))) = [(5, Coll ''mubsub'')] \<and>
   p_stage (publishes (fst (run publish_behind_thrower (Channel None opts0 env0))) ! 0) =
     AwaitReady"
  by (simp add: early_publish_world_def early_publish_def publish_in_close_def
      publish_after_close_def publish_behind_thrower_def
      run_def startup_def Channel_eq env0_def opts0_def entry_def
      dummy_at_def allowed_def tick_def enqueued_def due_def start_def turn_defs)

text \<open>
  C6, amended.  \<^verbatim>\<open>publish(event, message)\<close> waits only for a collection handle: when
  \<^verbatim>\<open>this.collection\<close> is set its callback is queued at once; when it is not, the
  publish registers for 'ready' and its callback is queued by the next 'ready' emitted
  (provided no 'ready' listener of the user's throws).  The queued callback reads
  \<^verbatim>\<open>this.collection\<close> again.  If it is set, the callback issues the insert on that
  collection; when the store acknowledges the write, the log has grown by exactly one
  entry with that event name and payload and the position the store assigned, and the
  publish is resolved with that entry.  If it is not set any more, the publish is rejected
  with a TypeError.
\<close>

theorem publish_waits_for_collection_handle:
  "(collection ch = Some c \<longrightarrow>
      publish ev m ch =
        ch\<lparr>publishes := publishes ch @ [\<lparr>p_event = ev, p_message = m, p_stage = PQueued\<rparr>]\<rparr>) \<and>
   (collection ch = None \<longrightarrow>
      publish ev m ch =
        ch\<lparr>listeners := listeners ch @ [(''ready'', ResolveReady (length (publishes ch)))],
           publishes := publishes ch @ [\<lparr>p_event = ev, p_message = m, p_stage = AwaitReady\<rparr>]\<rparr> \<and>
      (throwers ''ready'' ch = [] \<longrightarrow>
       p_stage (publishes (snd (emit ''ready'' a (publish ev m ch))) ! length (publishes ch)) =
         PQueued)) \<and>
   (j < length (publishes ch) \<and> p_stage (publishes ch ! j) = PQueued \<and> collection ch = Some c \<longrightarrow>
      p_stage (publishes (publish_then j ch) ! j) = PInserting c \<and>
      the_log c (snd (publish_inserted j Written (publish_then j ch) e)) =
        the_log c e @
          [\<lparr>doc_id = length (the_log c e), doc_event = Some (p_event (publishes ch ! j)),
            doc_message = p_message (publishes ch ! j), doc_dummy = False\<rparr>] \<and>
      p_stage (publishes (fst (publish_inserted j Written (publish_then j ch) e)) ! j) =
        PResolved \<lparr>doc_id = length (the_log c e), doc_event = Some (p_event (publishes ch ! j)),
            doc_message = p_message (publishes ch ! j), doc_dummy = False\<rparr>) \<and>
   (j < length (publishes ch) \<and> p_stage (publishes ch ! j) = PQueued \<and> collection ch = None \<longrightarrow>
      p_stage (publishes (publish_then j ch) ! j) = PRejected TypeError \<and>
      publish_inserted j oc (publish_then j ch) e = (publish_then j ch, e))"
  by (simp add: ready_resumes_publish)
     (simp add: publish_eq publish_then_def publish_inserted_def set_pstage_def insertOne_def
      new_doc_def the_log_def)

theorem publish_waits_for_collection_handle_witness:
  "collection (fst (Channel None opts0 env0)) = None \<and>
   throwers ''ready'' (fst (Channel None opts0 env0)) = [] \<and>
   p_stage (publishes (snd (emit ''ready'' (Coll ''mubsub'')
      (publish ''foo'' (Some ''x'') (fst (Channel None opts0 env0))))) ! 0) = PQueued \<and>
   collection (fst created_world) = Some ''mubsub'' \<and>
   p_stage (publishes (publish ''foo'' (Some ''x'') (fst created_world)) ! 0) = PQueued \<and>
   p_stage (publishes (fst queued_publish_world) ! 0) = PQueued \<and>
   collection (fst queued_publish_world) = Some ''mubsub'' \<and>
   the_log ''mubsub'' (snd (publish_inserted 0 Written
      (publish_then 0 (fst queued_publish_world)) (snd queued_publish_world))) =
     [entry 0 ''foo'' ''x''] \<and>
   p_stage (publishes (fst released_publish_world) ! 0) = PQueued \<and>
   collection (fst released_publish_world) = None \<and>
   p_stage (publishes (publish_then 0 (fst released_publish_world)) ! 0) = PRejected TypeError"
  using publish_waits_for_collection_handle
          [of "fst (Channel None opts0 env0)" "''mubsub''" "''foo''" "Some ''x''"
              "Coll ''mubsub''" 0 env0 Written]
        publish_waits_for_collection_handle
          [of "fst created_world" "''mubsub''" "''foo''" "Some ''x''" "Coll ''mubsub''" 0
              "snd created_world" Written]
        publish_waits_for_collection_handle
          [of "fst queued_publish_world" "''mubsub''" "''foo''" "Some ''x''" "Coll ''mubsub''" 0
              "snd queued_publish_world" Written]
        publish_waits_for_collection_handle
          [of "fst released_publish_world" "''mubsub''" "''foo''" "Some ''x''" "Coll ''mubsub''"
              0 "snd released_publish_world" Written]
  by (simp add: created_world_def queued_publish_world_def released_publish_world_def
      early_publish_def publish_in_close_def startup_def run_def Channel_eq env0_def opts0_def
      entry_def throwers_def turn_defs)

subsection \<open>C7: nothing after close\<close>

text \<open>
  C7.  The user closes the channel while its first \<^verbatim>\<open>listen\<close> is pending; the close
  completes at once (there is no cursor).  The pending \<^verbatim>\<open>then\<close> callback still runs
  and sets \<^verbatim>\<open>this.closed = false\<close>: an entry published afterwards is delivered to the
  subscriber of \<^verbatim>\<open>foo\<close>, and when the stream breaks a new \<^verbatim>\<open>listen\<close> is started.
\<close>

theorem close_during_startup_is_overridden:
  "closed (fst (run early_close (Channel None opts0 env0))) \<and>
   user_closes (fst (run early_close (Channel None opts0 env0))) = 0 \<and>
   calls (fst (run (early_close @ startup @
             [Append ''mubsub'' (Some ''foo'') (Some ''x'') False, Data 0])
           (Channel None opts0 env0))) = [(1, Msg (Some ''x''))] \<and>
   map l_fired (listens (fst (run (early_close @ startup @ [Broken 0])
           (Channel None opts0 env0)))) = [True, False]"
  by (simp add: early_close_def run_def startup_def Channel_eq env0_def opts0_def turn_defs)

subsection \<open>C8: close is idempotent and total\<close>

text \<open>
  C8.  \<^verbatim>\<open>close\<close> on a channel that has no cursor (none was ever opened, or an earlier
  close released it) returns a promise that is already fulfilled and only sets the flag.
  And once a close has completed, at once or through the callback of
  \<^verbatim>\<open>cursor.close()\<close>, a further \<^verbatim>\<open>close\<close> is fulfilled at once and changes nothing.
  \<^verbatim>\<open>close\<close> has no throwing path.
\<close>

theorem close_idempotent_total:
  "(cursor ch = None \<longrightarrow> close ch e = (True, ch\<lparr>closed := True\<rparr>, e)) \<and>
   (case close ch e of (f, ch1, e1) \<Rightarrow>
      close (if f then ch1 else close_then ch1) e1 =
        (True, (if f then ch1 else close_then ch1), e1))"
  by (cases "cursor ch") (simp_all add: close_def close_then_def)

theorem close_idempotent_total_witness:
  "cursor (fst (Channel None opts0 env0)) = None \<and>
   close (fst (Channel None opts0 env0)) env0 =
     (True, (fst (Channel None opts0 env0))\<lparr>closed := True\<rparr>, env0) \<and>
   cursor (fst tailing_world) = Some 0 \<and>
   fst (close (fst tailing_world) (snd tailing_world)) = False \<and>
   close (close_then (fst (snd (close (fst tailing_world) (snd tailing_world)))))
         (snd (snd (close (fst tailing_world) (snd tailing_world)))) =
     (True, close_then (fst (snd (close (fst tailing_world) (snd tailing_world)))),
      snd (snd (close (fst tailing_world) (snd tailing_world))))"
  using close_idempotent_total [of "fst (Channel None opts0 env0)" env0]
        close_idempotent_total [of "fst tailing_world" "snd tailing_world"]
  by (simp add: tailing_world_def run_def startup_def Channel_eq env0_def opts0_def turn_defs)

subsection \<open>C9: publish after close\<close>



subsection \<open>C10: the default name\<close>

text \<open>
  C10.  A channel constructed without a name is named \<^verbatim>\<open>mubsub\<close> and, once its
  collection is created, holds the handle of the collection \<^verbatim>\<open>mubsub\<close>.  So two unnamed
  channels on one connection hold the same handle, and an entry published through the
  first is appended to the very log the second one's handle denotes.
\<close>

theorem unnamed_channels_share_mubsub:
  "name (fst (Channel None o1 e)) = ''mubsub'' \<and>
   collection (fst (run [Connect, CreateDone Created] (Channel None o1 e))) = Some ''mubsub'' \<and>
   (let (a, ea) = run [Connect, CreateDone Created] (Channel None o1 e);
        (b, eb) = run [Connect, CreateDone Created] (Channel None o2 ea);
        (a', e') = run [Publish ev m, PublishThen 0, PublishInserted 0 Written] (a, eb)
    in collection a' = collection b \<and>
       the_log (name b) e' = the_log (name b) eb @
         [\<lparr>doc_id = length (the_log (name b) eb), doc_event = Some ev, doc_message = m,
           doc_dummy = False\<rparr>])"
  apply (simp add: booted)
  apply (simp add: Channel_eq run_def publish_def ready_def publish_then_def
      publish_inserted_def set_pstage_def insertOne_def new_doc_def the_log_def)
  done

theorem unnamed_channels_share_mubsub_witness:
  "name (fst (Channel None opts0 env0)) = ''mubsub'' \<and>
   collection (fst (run [Connect, CreateDone Created] (Channel None opts0 env0))) = Some ''mubsub''"
  using unnamed_channels_share_mubsub [of opts0 env0 opts0 "''foo''" "Some ''a''"] by simp

end
